theory Spec2Isabelle
  imports Complex_Main
begin

section \<open>Python values and dictionaries\<close>

text \<open>
  The scanner of \<^verbatim>\<open>backend/scanner.py\<close> keeps violations as Python dictionaries
  (\<^verbatim>\<open>Dict[str, Any]\<close>). A value is \<^verbatim>\<open>None\<close>, a boolean, a string or a nested
  dictionary with string keys; on these Python's \<^verbatim>\<open>==\<close> is equality of the value.
  Numbers are left out (Python lets \<^verbatim>\<open>True == 1\<close>, and floats have NaN).
  A character is a code point below 256.

  A dictionary is a map: \<open>d k = None\<close> says the key is missing, \<open>d k = Some PNone\<close>
  says the key holds \<^verbatim>\<open>None\<close>. The code tells the two apart
  (\<^verbatim>\<open>setdefault\<close>, \<^verbatim>\<open>get\<close> with a default).
\<close>

datatype pyval = PNone | PBool bool | PStr string | PDict "string \<Rightarrow> pyval option"

type_synonym pydict = "string \<Rightarrow> pyval option"

text \<open>\<^verbatim>\<open>d.get(k)\<close>\<close>

definition getv :: "pydict \<Rightarrow> string \<Rightarrow> pyval" where
  "getv d k = (case d k of None \<Rightarrow> PNone | Some v \<Rightarrow> v)"

text \<open>\<^verbatim>\<open>d.get(k, dflt)\<close>\<close>

definition getd :: "pydict \<Rightarrow> string \<Rightarrow> pyval \<Rightarrow> pyval" where
  "getd d k dflt = (case d k of None \<Rightarrow> dflt | Some v \<Rightarrow> v)"

text \<open>\<^verbatim>\<open>d.setdefault(k, v)\<close>: writes only where the key is missing.\<close>

definition setdefault :: "pydict \<Rightarrow> string \<Rightarrow> pyval \<Rightarrow> pydict" where
  "setdefault d k v = (case d k of None \<Rightarrow> d(k \<mapsto> v) | Some _ \<Rightarrow> d)"

text \<open>Truth value of a Python value, as \<^verbatim>\<open>x or y\<close> tests it.\<close>

fun py_truthy :: "pyval \<Rightarrow> bool" where
  "py_truthy PNone = False"
| "py_truthy (PBool b) = b"
| "py_truthy (PStr s) = (s \<noteq> [])"
| "py_truthy (PDict m) = (m \<noteq> Map.empty)"

text \<open>\<^verbatim>\<open>x or y\<close>\<close>

definition py_or :: "pyval \<Rightarrow> pyval \<Rightarrow> pyval" where
  "py_or x y = (if py_truthy x then x else y)"


section \<open>Characters and regular expressions\<close>

text \<open>
  A Python string is a list of code points; the model has the code points below 256.
  \<open>lower_char\<close> is \<^verbatim>\<open>str.lower\<close> on one such character, \<open>upper_char\<close> its inverse
  on the lower-case letters that have a capital below 256.
\<close>

definition code :: "char \<Rightarrow> nat" where
  "code c = of_char c"

definition is_upper8 :: "char \<Rightarrow> bool" where
  "is_upper8 c \<longleftrightarrow> (65 \<le> code c \<and> code c \<le> 90) \<or> (192 \<le> code c \<and> code c \<le> 222 \<and> code c \<noteq> 215)"

definition is_lower8 :: "char \<Rightarrow> bool" where
  "is_lower8 c \<longleftrightarrow> (97 \<le> code c \<and> code c \<le> 122) \<or> (224 \<le> code c \<and> code c \<le> 254 \<and> code c \<noteq> 247)"

definition lower_char :: "char \<Rightarrow> char" where
  "lower_char c = (if is_upper8 c then char_of (code c + 32) else c)"

definition upper_char :: "char \<Rightarrow> char" where
  "upper_char c = (if is_lower8 c then char_of (code c - 32) else c)"

definition py_lower :: "string \<Rightarrow> string" where
  "py_lower s = map lower_char s"

text \<open>
  The patterns handed to \<^verbatim>\<open>re.search\<close>, as the parser of \<^verbatim>\<open>re\<close> reads them. An atom
  matches one character: a literal, \<^verbatim>\<open>.\<close> (any character but a newline), \<^verbatim>\<open>\s\<close>, or
  a class \<^verbatim>\<open>[...]\<close> of characters and ranges. The patterns of this program repeat atoms
  only, so \<open>Star\<close> takes an atom; its flag says whether the repetition is greedy.
\<close>

datatype class_item = CChar char | CRange char char

datatype atom = Lit char | AnyChar | Space | InSet "class_item list"

datatype regex = Eps | Atom atom | Seq regex regex | Alt regex regex | Star bool atom

text \<open>
  Compiling a pattern fails with \<^verbatim>\<open>re.error\<close> (bad character range) when a class holds
  a range whose upper end is below its lower end.
\<close>

fun item_ok :: "class_item \<Rightarrow> bool" where
  "item_ok (CChar c) = True"
| "item_ok (CRange lo hi) = (code lo \<le> code hi)"

fun atom_ok :: "atom \<Rightarrow> bool" where
  "atom_ok (InSet items) = list_all item_ok items"
| "atom_ok _ = True"

fun regex_ok :: "regex \<Rightarrow> bool" where
  "regex_ok Eps = True"
| "regex_ok (Atom a) = atom_ok a"
| "regex_ok (Seq r1 r2) = (regex_ok r1 \<and> regex_ok r2)"
| "regex_ok (Alt r1 r2) = (regex_ok r1 \<and> regex_ok r2)"
| "regex_ok (Star g a) = atom_ok a"

text \<open>\<^verbatim>\<open>str.isspace\<close> on one character; \<^verbatim>\<open>\s\<close> matches the same characters.\<close>

definition py_isspace :: "char \<Rightarrow> bool" where
  "py_isspace c \<longleftrightarrow> (9 \<le> code c \<and> code c \<le> 13) \<or> (28 \<le> code c \<and> code c \<le> 32) \<or> code c = 133 \<or> code c = 160"

text \<open>
  Matching one character; \<open>ic\<close> is the flag \<^verbatim>\<open>re.I\<close>, under which a character matches
  a literal with the same lower case and a range that holds a character with the same
  lower case.
\<close>

fun item_match :: "bool \<Rightarrow> class_item \<Rightarrow> char \<Rightarrow> bool" where
  "item_match ic (CChar p) c = (if ic then lower_char c = lower_char p else c = p)"
| "item_match ic (CRange lo hi) c =
     (if ic
      then (code lo \<le> code (lower_char c) \<and> code (lower_char c) \<le> code hi) \<or>
           (code lo \<le> code (upper_char (lower_char c)) \<and> code (upper_char (lower_char c)) \<le> code hi)
      else code lo \<le> code c \<and> code c \<le> code hi)"

fun atom_match :: "bool \<Rightarrow> atom \<Rightarrow> char \<Rightarrow> bool" where
  "atom_match ic (Lit p) c = (if ic then lower_char c = lower_char p else c = p)"
| "atom_match ic AnyChar c = (c \<noteq> CHR 0x0A)"
| "atom_match ic Space c = py_isspace c"
| "atom_match ic (InSet items) c = list_ex (\<lambda>i. item_match ic i c) items"

text \<open>
  The backtracking matcher: all the ways the pattern matches a prefix of the text, each
  given by the rest of the text, in the order in which \<^verbatim>\<open>re\<close> tries them (the left
  branch of an alternative first, the longest repetition first when greedy).
\<close>

fun re_match :: "bool \<Rightarrow> regex \<Rightarrow> string \<Rightarrow> string list" where
  "re_match ic Eps s = [s]"
| "re_match ic (Atom a) [] = []"
| "re_match ic (Atom a) (c # cs) = (if atom_match ic a c then [cs] else [])"
| "re_match ic (Seq r1 r2) s = concat (map (re_match ic r2) (re_match ic r1 s))"
| "re_match ic (Alt r1 r2) s = re_match ic r1 s @ re_match ic r2 s"
| "re_match ic (Star g a) [] = [[]]"
| "re_match ic (Star g a) (c # cs) =
     (if atom_match ic a c
      then (if g then re_match ic (Star g a) cs @ [c # cs] else (c # cs) # re_match ic (Star g a) cs)
      else [c # cs])"

text \<open>
  \<^verbatim>\<open>re.search\<close>: the first match at the leftmost position that has one; the result is
  \<^verbatim>\<open>group(0)\<close> of the match, \<open>None\<close> when there is none.
\<close>

fun search_from :: "bool \<Rightarrow> regex \<Rightarrow> string \<Rightarrow> string option" where
  "search_from ic r [] = (case re_match ic r [] of [] \<Rightarrow> None | rest # _ \<Rightarrow> Some [])"
| "search_from ic r (c # cs) =
     (case re_match ic r (c # cs) of
        [] \<Rightarrow> search_from ic r cs
      | rest # _ \<Rightarrow> Some (take (length (c # cs) - length rest) (c # cs)))"

text \<open>
  The exceptions of the model: \<^verbatim>\<open>re.error\<close>, whatever the call of the language model
  raises, and a failure to read a policy file.
\<close>

datatype error = RegexError | DetectorError string | ReadError string

definition re_search :: "regex \<Rightarrow> string \<Rightarrow> bool \<Rightarrow> error + string option" where
  "re_search pattern text ic =
     (if regex_ok pattern then Inr (search_from ic pattern text) else Inl RegexError)"

text \<open>
  Pattern syntax: a run of literals, \<^verbatim>\<open>x+\<close>, \<^verbatim>\<open>x+?\<close>, \<^verbatim>\<open>(r)?\<close>, \<^verbatim>\<open>x{n,}\<close>,
  sequences and alternatives.
\<close>

fun lits :: "string \<Rightarrow> regex" where
  "lits [] = Eps"
| "lits (c # cs) = Seq (Atom (Lit c)) (lits cs)"

definition plus :: "atom \<Rightarrow> regex" where
  "plus a = Seq (Atom a) (Star True a)"

definition lazy_plus :: "atom \<Rightarrow> regex" where
  "lazy_plus a = Seq (Atom a) (Star False a)"

definition opt :: "regex \<Rightarrow> regex" where
  "opt r = Alt r Eps"

fun at_least :: "nat \<Rightarrow> atom \<Rightarrow> regex" where
  "at_least 0 a = Star True a"
| "at_least (Suc n) a = Seq (Atom a) (at_least n a)"

fun seqs :: "regex list \<Rightarrow> regex" where
  "seqs [] = Eps"
| "seqs (r # rs) = Seq r (seqs rs)"

fun alts :: "regex list \<Rightarrow> regex" where
  "alts [] = Eps"
| "alts [r] = r"
| "alts (r # rs) = Alt r (alts rs)"

text \<open>
  The four patterns of \<^verbatim>\<open>_heuristic_violations\<close> (lines 251 to 256). They are raw
  strings in which every backslash is doubled, so \<^verbatim>\<open>\\\<close> is an escaped backslash, a
  literal, and the letter after it is a literal too:
  \<^item> \<^verbatim>\<open>[A-Z0-9._%+-]+@[A-Z0-9.-]+\\.[A-Z]{2,}\<close> asks for a backslash and any character
    before the final letters;
  \<^item> in \<^verbatim>\<open>\\+?\\d[\\d \\-()]{7,}\\d\<close> the class holds a backslash, \<^verbatim>\<open>d\<close>, a space, the
    range from backslash (92) to \<^verbatim>\<open>(\<close> (40), and \<^verbatim>\<open>)\<close>;
  \<^item> in \<^verbatim>\<open>sk_live_[A-Za-z0-9_\\-]{10,}\<close> the class ends with a backslash and a hyphen;
  \<^item> in the retention pattern each \<^verbatim>\<open>\\s+\<close> is a backslash followed by one or more
    letters \<^verbatim>\<open>s\<close>.
\<close>

definition backslash :: char where
  "backslash = CHR 0x5C"

definition email_re :: regex where
  "email_re = seqs
     [plus (InSet [CRange CHR ''A'' CHR ''Z'', CRange CHR ''0'' CHR ''9'', CChar CHR ''.'',
                   CChar CHR ''_'', CChar CHR ''%'', CChar CHR ''+'', CChar CHR ''-'']),
      Atom (Lit CHR ''@''),
      plus (InSet [CRange CHR ''A'' CHR ''Z'', CRange CHR ''0'' CHR ''9'', CChar CHR ''.'',
                   CChar CHR ''-'']),
      Atom (Lit backslash), Atom AnyChar,
      at_least 2 (InSet [CRange CHR ''A'' CHR ''Z''])]"

definition phone_re :: regex where
  "phone_re = seqs
     [lazy_plus (Lit backslash), Atom (Lit backslash), Atom (Lit CHR ''d''),
      at_least 7 (InSet [CChar backslash, CChar CHR ''d'', CChar CHR '' '',
                         CRange backslash CHR ''('', CChar CHR '')'']),
      Atom (Lit backslash), Atom (Lit CHR ''d'')]"

definition token_re :: regex where
  "token_re = seqs
     [lits ''sk_live_'',
      at_least 10 (InSet [CRange CHR ''A'' CHR ''Z'', CRange CHR ''a'' CHR ''z'',
                          CRange CHR ''0'' CHR ''9'', CChar CHR ''_'', CChar backslash,
                          CChar CHR ''-''])]"

definition bs_s_plus :: regex where
  "bs_s_plus = Seq (Atom (Lit backslash)) (plus (Lit CHR ''s''))"

definition retention_re :: regex where
  "retention_re = alts
     [seqs [lits ''retain'', opt (lits ''ing''), bs_s_plus, lits ''forever''],
      seqs [lits ''retain'', opt (lits ''ing''), bs_s_plus, lits ''indefinitely''],
      seqs [lits ''keep'', bs_s_plus, lits ''forever''],
      seqs [lits ''stay'', bs_s_plus, lits ''forever''],
      seqs [lits ''cannot'', bs_s_plus, lits ''delete''],
      seqs [lits ''can'', Atom (Lit backslash), Star True (Lit CHR ''s''), lits ''NOT'',
            bs_s_plus, Star True AnyChar, lits ''delete''],
      seqs [lits ''no'', bs_s_plus, lits ''chance'', bs_s_plus, lits ''to'', bs_s_plus,
            lits ''delete'']]"

text \<open>
  The module constant \<^verbatim>\<open>RETENTION_REGEX\<close> (line 22): the same pattern with single
  backslashes, where \<^verbatim>\<open>\s+\<close> is white space.
\<close>

definition RETENTION_REGEX :: regex where
  "RETENTION_REGEX = alts
     [seqs [lits ''retain'', opt (lits ''ing''), plus Space, lits ''forever''],
      seqs [lits ''retain'', opt (lits ''ing''), plus Space, lits ''indefinitely''],
      seqs [lits ''keep'', plus Space, lits ''forever''],
      seqs [lits ''stay'', plus Space, lits ''forever''],
      seqs [lits ''cannot'', plus Space, lits ''delete''],
      seqs [lits ''can'', Star True Space, lits ''NOT'', plus Space, Star True AnyChar,
            lits ''delete''],
      seqs [lits ''no'', plus Space, lits ''chance'', plus Space, lits ''to'', plus Space,
            lits ''delete'']]"

section \<open>Violations and the ledger\<close>

text \<open>
  A violation is a dictionary. Its \<^verbatim>\<open>"id"\<close> is held apart in \<open>vid\<close>: the code reads it
  only through \<^verbatim>\<open>v.get("id")\<close>, tests it against \<^verbatim>\<open>None\<close> and turns it into the
  index key with \<^verbatim>\<open>str\<close>. Identities are strings (the type the detector's schema
  declares), on which \<^verbatim>\<open>str\<close> is the identity; \<open>vid v = None\<close> stands for a missing
  key as well as for \<^verbatim>\<open>None\<close>, which the code never tells apart. All other keys are in
  \<open>items\<close>. The ledger is a list of violations, all of them distinct objects.
\<close>

record violation =
  vid :: "string option"
  items :: pydict

text \<open>
  A Python dictionary keyed by identity, with its insertion order (the order of
  \<^verbatim>\<open>.items()\<close>): storing under a key that is present replaces the value in place,
  a new key goes to the end.
\<close>

fun dict_put :: "string \<Rightarrow> 'v \<Rightarrow> (string \<times> 'v) list \<Rightarrow> (string \<times> 'v) list" where
  "dict_put k v [] = [(k, v)]"
| "dict_put k v ((k', v') # kvs) =
     (if k = k' then (k, v) # kvs else (k', v') # dict_put k v kvs)"

text \<open>\<^verbatim>\<open>{str(v.get("id")): v for v in vs if v.get("id") is not None}\<close>\<close>

fun by_id_into :: "(string \<times> violation) list \<Rightarrow> violation list \<Rightarrow> (string \<times> violation) list" where
  "by_id_into m [] = m"
| "by_id_into m (v # vs) =
     (case vid v of None \<Rightarrow> by_id_into m vs | Some i \<Rightarrow> by_id_into (dict_put i v m) vs)"

definition by_id :: "violation list \<Rightarrow> (string \<times> violation) list" where
  "by_id vs = by_id_into [] vs"


section \<open>Policies\<close>

text \<open>
  A policy is a dictionary that only this program builds, with six string values. The
  name of a policy read from disk comes from \<^verbatim>\<open>str.title\<close>, which can leave the code
  points below 256, so a name is a list of code points.
\<close>

record policy =
  policy_id :: string
  policy_name :: "nat list"
  policy_description :: string
  policy_version :: string
  policy_updatedAtIso :: string
  policy_text :: string

section \<open>The heuristic detector\<close>

text \<open>\<^verbatim>\<open>needle in text\<close> on strings.\<close>

fun starts_with :: "string \<Rightarrow> string \<Rightarrow> bool" where
  "starts_with [] text = True"
| "starts_with (n # ns) [] = False"
| "starts_with (n # ns) (c # cs) = (n = c \<and> starts_with ns cs)"

fun contains :: "string \<Rightarrow> string \<Rightarrow> bool" where
  "contains needle [] = (needle = [])"
| "contains needle (c # cs) = (starts_with needle (c # cs) \<or> contains needle cs)"

text \<open>
  Three characters of the messages lie above code point 255: the double quotation marks
  U+201C and U+201D and the ellipsis U+2026. They are written as their UTF-8 bytes.
\<close>

definition ldquo :: string where
  "ldquo = [CHR 0xE2, CHR 0x80, CHR 0x9C]"

definition rdquo :: string where
  "rdquo = [CHR 0xE2, CHR 0x80, CHR 0x9D]"

definition hellip :: string where
  "hellip = [CHR 0xE2, CHR 0x80, CHR 0xA6]"

text \<open>The local function \<^verbatim>\<open>pick\<close>; \<open>policy_ids\<close> is the set of the policies' ids.\<close>

definition pick :: "string list \<Rightarrow> string \<Rightarrow> string \<Rightarrow> string" where
  "pick policy_ids pid fallback = (if pid \<in> set policy_ids then pid else fallback)"

text \<open>A candidate violation as the detector writes it.\<close>

definition candidate ::
  "string \<Rightarrow> string \<Rightarrow> string \<Rightarrow> string \<Rightarrow> string \<Rightarrow> string \<Rightarrow> string \<Rightarrow> string \<Rightarrow> violation" where
  "candidate i title summary policyId severity rule evidence recommendation =
     \<lparr>vid = Some i,
      items = [''title'' \<mapsto> PStr title, ''summary'' \<mapsto> PStr summary,
               ''sourceId'' \<mapsto> PStr ''google-drive'', ''policyId'' \<mapsto> PStr policyId,
               ''severity'' \<mapsto> PStr severity,
               ''details'' \<mapsto> PDict [''rule'' \<mapsto> PStr rule,
                                      ''location'' \<mapsto> PStr ''Local doc (pretend Drive)'',
                                      ''evidence'' \<mapsto> PStr evidence,
                                      ''recommendation'' \<mapsto> PStr recommendation]]\<rparr>"

definition group0_or_na :: "string option \<Rightarrow> string" where
  "group0_or_na m = (case m of Some g \<Rightarrow> g | None \<Rightarrow> ''n/a'')"

text \<open>
  \<^verbatim>\<open>_heuristic_violations\<close>. The four searches run first, in the order of the source;
  an exception of any of them leaves the function.
\<close>

definition heuristic_violations ::
  "string \<Rightarrow> policy list \<Rightarrow> violation list \<Rightarrow> error + violation list" where
  "heuristic_violations doc_text policies existing_open =
     (case re_search email_re doc_text True of
        Inl e \<Rightarrow> Inl e
      | Inr email \<Rightarrow>
     (case re_search phone_re doc_text False of
        Inl e \<Rightarrow> Inl e
      | Inr phone \<Rightarrow>
     (let anyone_link = contains ''anyone with the link'' (py_lower doc_text) in
     (case re_search token_re doc_text False of
        Inl e \<Rightarrow> Inl e
      | Inr token \<Rightarrow>
     (case re_search retention_re doc_text True of
        Inl e \<Rightarrow> Inl e
      | Inr retention \<Rightarrow>
     (let policy_ids = map policy_id policies;
          existing_ids = List.map_filter
            (\<lambda>v. case vid v of None \<Rightarrow> None | Some i \<Rightarrow> if i \<noteq> [] then Some i else None)
            existing_open;
          out1 = (if email \<noteq> None \<or> phone \<noteq> None
                  then [candidate (if ''b-001'' \<in> set existing_ids then ''b-001'' else ''b-001'')
                          ''Possible personal data in document''
                          ''Detected patterns that look like email/phone.''
                          (pick policy_ids ''gdpr'' ''gdpr'') ''medium''
                          ''Avoid including personal data in broadly accessible documents.''
                          (''Email: '' @ group0_or_na email @ ''; Phone: '' @ group0_or_na phone)
                          ''Redact personal data and restrict access.'']
                  else []);
          out2 = out1 @
                 (if anyone_link
                  then [candidate ''b-002''
                          ''Document appears to be shared publicly''
                          (''Found text indicating '' @ ldquo @ ''Anyone with the link'' @ rdquo @ ''.'')
                          (pick policy_ids ''access-control'' ''gdpr'') ''high''
                          ''Access control: do not share personal data publicly.''
                          (''Matched phrase: '' @ ldquo @ ''Anyone with the link'' @ rdquo @ ''.'')
                          ''Restrict sharing and move content to private folder.'']
                  else []);
          out3 = out2 @
                 (case token of
                    Some g \<Rightarrow>
                      [candidate ''b-003''
                         ''Secret/token-like string found''
                         ''Detected a token-like pattern in the document.''
                         (pick policy_ids ''secrets-handling'' ''gdpr'') ''high''
                         ''Secrets handling: never store tokens in shared docs.''
                         (''Matched pattern: '' @ take 12 g @ hellip)
                         ''Rotate token and remove from document.'']
                  | None \<Rightarrow> []);
          out4 = out3 @
                 (case retention of
                    Some g \<Rightarrow>
                      [candidate ''b-004''
                         ''Indefinite retention / no deletion mentioned''
                         ''Document suggests users cannot delete their data or data is retained forever.''
                         (pick policy_ids ''data-retention'' ''gdpr'') ''high''
                         ''Data retention: users must be able to request deletion; indefinite retention is not allowed by default.''
                         (''Matched phrase: '' @ ldquo @ g @ rdquo)
                         (''Add deletion process and set retention periods; remove '' @ [CHR 0x27]
                            @ ''forever'' @ [CHR 0x27] @ '' retention statements.'')]
                  | None \<Rightarrow> [])
      in Inr out4))))))"

section \<open>The detection pipeline\<close>

text \<open>
  \<^verbatim>\<open>_analyze\<close>. \<open>api_key\<close> is \<^verbatim>\<open>os.getenv("OPENAI_API_KEY")\<close>. The call of the language
  model is outside the program: \<open>openai_violations\<close> gives, for the arguments of
  \<^verbatim>\<open>_openai_violations\<close>, the list it returns or the exception it raises.
\<close>

type_synonym detector = "string \<Rightarrow> policy list \<Rightarrow> violation list \<Rightarrow> error + violation list"

definition analyze ::
  "string option \<Rightarrow> detector \<Rightarrow> string \<Rightarrow> policy list \<Rightarrow> violation list \<Rightarrow> error + violation list" where
  "analyze api_key openai_violations doc_text policies existing_open =
     (if api_key = None \<or> api_key = Some []
      then heuristic_violations doc_text policies existing_open
      else (case openai_violations doc_text policies existing_open of
              Inr llm \<Rightarrow> Inr llm
            | Inl e \<Rightarrow> heuristic_violations doc_text policies existing_open))"

section \<open>Reconciliation\<close>

text \<open>The local variables of \<^verbatim>\<open>_reconcile\<close> that its two loops update.\<close>

record racc =
  updated :: "violation list"
  changed :: bool
  new_count :: nat
  reopened :: nat
  resolved :: nat

text \<open>Their values before the first loop (lines 592 to 598).\<close>

definition racc0 :: racc where
  "racc0 = \<lparr>updated = [], changed = False, new_count = 0, reopened = 0, resolved = 0\<rparr>"

text \<open>The summary \<^verbatim>\<open>_reconcile\<close> returns beside the ledger.\<close>

record diff =
  diff_changed :: bool
  diff_new :: nat
  diff_reopened :: nat
  diff_resolved :: nat
  diff_open_count :: nat
  diff_resolved_count :: nat

definition mutable_keys :: "string list" where
  "mutable_keys = [''title'', ''summary'', ''sourceId'', ''policyId'', ''severity'', ''details'']"

text \<open>
  The inner loop over the descriptive keys: a value of the detection that is not
  \<^verbatim>\<open>None\<close> and differs from the stored one overwrites it and sets \<^verbatim>\<open>changed\<close>.
\<close>

fun update_fields :: "pydict \<Rightarrow> string list \<Rightarrow> pydict \<times> bool \<Rightarrow> pydict \<times> bool" where
  "update_fields d [] (old, ch) = (old, ch)"
| "update_fields d (k # ks) (old, ch) =
     (if getv d k \<noteq> PNone \<and> getv d k \<noteq> getv old k
      then update_fields d ks (old(k \<mapsto> getv d k), True)
      else update_fields d ks (old, ch))"

text \<open>Lines 609 to 611: backfill of \<^verbatim>\<open>firstSeenIso\<close>, then \<^verbatim>\<open>lastSeenIso = now\<close>.\<close>

definition touch_seen :: "string \<Rightarrow> pydict \<Rightarrow> pydict" where
  "touch_seen now old =
     (let old1 = (if getv old ''firstSeenIso'' = PNone
                  then old(''firstSeenIso'' \<mapsto> py_or (getv old ''createdAtIso'') (PStr now))
                  else old)
      in old1(''lastSeenIso'' \<mapsto> PStr now))"

text \<open>
  The body of the first loop for one entry \<open>old\<close> of the existing ledger. An entry with
  no identity is skipped (\<^verbatim>\<open>continue\<close>) and so is not in the updated ledger.
\<close>

definition reconcile_old :: "string \<Rightarrow> (string \<times> violation) list \<Rightarrow> violation \<Rightarrow> racc \<Rightarrow> racc" where
  "reconcile_old now detected_by_id old a =
     (case vid old of
        None \<Rightarrow> a
      | Some i \<Rightarrow>
          (let status = getd (items old) ''status'' (PStr ''OPEN'') in
           case map_of detected_by_id i of
             Some d \<Rightarrow>
               (let old1 = touch_seen now (items old);
                    old2 = (if status = PStr ''RESOLVED''
                            then old1(''status'' \<mapsto> PStr ''OPEN'', ''resolvedAtIso'' \<mapsto> PNone)
                            else old1);
                    a1 = (if status = PStr ''RESOLVED''
                          then a\<lparr>reopened := reopened a + 1, changed := True\<rparr>
                          else a);
                    r = update_fields (items d) mutable_keys (old2, changed a1)
                in a1\<lparr>changed := snd r, updated := updated a1 @ [old\<lparr>items := fst r\<rparr>]\<rparr>)
           | None \<Rightarrow>
               (if status \<noteq> PStr ''RESOLVED''
                then a\<lparr>changed := True, resolved := resolved a + 1,
                       updated := updated a @
                         [old\<lparr>items := (items old)(''status'' \<mapsto> PStr ''RESOLVED'',
                                                   ''resolvedAtIso'' \<mapsto> PStr now)\<rparr>]\<rparr>
                else a\<lparr>updated := updated a @ [old]\<rparr>)))"

fun reconcile_existing :: "string \<Rightarrow> (string \<times> violation) list \<Rightarrow> violation list \<Rightarrow> racc \<Rightarrow> racc" where
  "reconcile_existing now detected_by_id [] a = a"
| "reconcile_existing now detected_by_id (old # rest) a =
     reconcile_existing now detected_by_id rest (reconcile_old now detected_by_id old a)"

text \<open>Lines 640 to 646: the entry made for a detection that is new to the ledger.\<close>

definition new_item :: "string \<Rightarrow> violation \<Rightarrow> violation" where
  "new_item now d =
     (let i1 = setdefault (items d) ''firstSeenIso'' (PStr now);
          i2 = setdefault i1 ''lastSeenIso'' (PStr now);
          i3 = setdefault i2 ''createdAtIso'' (PStr now);
          i4 = setdefault i3 ''read'' (PBool False)
      in d\<lparr>items := i4(''status'' \<mapsto> PStr ''OPEN'', ''resolvedAtIso'' \<mapsto> PNone)\<rparr>)"

text \<open>The second loop: \<^verbatim>\<open>updated.insert(0, item)\<close> puts each new entry in front.\<close>

fun reconcile_new :: "string \<Rightarrow> (string \<times> violation) list \<Rightarrow> (string \<times> violation) list \<Rightarrow> racc \<Rightarrow> racc" where
  "reconcile_new now existing_by_id [] a = a"
| "reconcile_new now existing_by_id ((i, d) # rest) a =
     (if map_of existing_by_id i \<noteq> None
      then reconcile_new now existing_by_id rest a
      else reconcile_new now existing_by_id rest
             (a\<lparr>updated := new_item now d # updated a,
                new_count := new_count a + 1,
                changed := True\<rparr>))"

definition is_open :: "violation \<Rightarrow> bool" where
  "is_open v \<longleftrightarrow> getd (items v) ''status'' (PStr ''OPEN'') = PStr ''OPEN''"

text \<open>
  \<^verbatim>\<open>_reconcile(existing, detected_open)\<close>; \<open>now\<close> is what \<^verbatim>\<open>now_iso()\<close> returned at
  line 583. The entries are mutated in place; the model returns the new values.
\<close>

definition reconcile :: "string \<Rightarrow> violation list \<Rightarrow> violation list \<Rightarrow> violation list \<times> diff" where
  "reconcile now existing detected_open =
     (let existing_by_id = by_id existing;
          detected_by_id = by_id detected_open;
          a1 = reconcile_existing now detected_by_id existing racc0;
          a2 = reconcile_new now existing_by_id detected_by_id a1;
          open_count = length (filter is_open (updated a2))
      in (updated a2,
          \<lparr>diff_changed = changed a2, diff_new = new_count a2, diff_reopened = reopened a2,
           diff_resolved = resolved a2, diff_open_count = open_count,
           diff_resolved_count = length (updated a2) - open_count\<rparr>))"

text \<open>
  The data model's invariant on one entry: \<^verbatim>\<open>resolvedAtIso\<close> is not \<^verbatim>\<open>None\<close> exactly
  when the status is \<^verbatim>\<open>"RESOLVED"\<close>.
\<close>

definition resolved_inv :: "violation \<Rightarrow> bool" where
  "resolved_inv v \<longleftrightarrow>
     ((getv (items v) ''resolvedAtIso'' \<noteq> PNone) = (getv (items v) ''status'' = PStr ''RESOLVED''))"


section \<open>Scan state and its surroundings\<close>

record source =
  source_id :: string
  source_name :: string
  source_description :: string
  source_path :: string

text \<open>
  \<^verbatim>\<open>ScanState\<close>. Modification times are the floats of \<^verbatim>\<open>st_mtime\<close>; the code only
  compares them and takes their maximum.
\<close>

record scan_state =
  sources :: "source list"
  policies :: "policy list"
  violations :: "violation list"
  last_scan_iso :: "string option"
  last_scan_error :: "string option"
  doc_mtime :: "real option"
  policies_mtime :: "real option"

text \<open>
  A file \<^verbatim>\<open>*.md\<close> of the policy directory: its name (\<^verbatim>\<open>p.name\<close>), its modification
  time (\<open>None\<close> when \<^verbatim>\<open>stat\<close> raises \<^verbatim>\<open>FileNotFoundError\<close>) and its text (\<open>None\<close> when
  reading it raises).
\<close>

record policy_file =
  file_name :: string
  st_mtime :: "real option"
  file_text :: "string option"

text \<open>
  What one call of \<^verbatim>\<open>scan_once\<close> finds outside the program: the policy directory
  (\<open>None\<close> when it does not exist, else its files in sorted order), the monitored
  document (\<open>None\<close> when it does not exist, else its modification time and text) and its
  path, the clock (\<open>clock e k\<close> is what the call number \<open>k\<close> of \<^verbatim>\<open>now_iso\<close> returns,
  counted from 0), the variable \<^verbatim>\<open>OPENAI_API_KEY\<close> and the language model.
\<close>

record env =
  policies_dir :: "policy_file list option"
  doc_path :: string
  doc_file :: "(real \<times> string) option"
  clock :: "nat \<Rightarrow> string"
  OPENAI_API_KEY :: "string option"
  openai :: detector

text \<open>\<^verbatim>\<open>_policies_max_mtime\<close>\<close>

definition policies_max_mtime :: "env \<Rightarrow> real option" where
  "policies_max_mtime e =
     (case policies_dir e of
        None \<Rightarrow> None
      | Some files \<Rightarrow>
          (case List.map_filter st_mtime files of
             [] \<Rightarrow> None
           | m # ms \<Rightarrow> Some (fold max ms m)))"

text \<open>
  \<^verbatim>\<open>p.stem\<close> of \<^verbatim>\<open>pathlib\<close>: the name up to its last dot, or the whole name when
  that dot is missing, leads the name or ends it (\<open>rfind\<close> is \<^verbatim>\<open>str.rfind\<close>, with
  \<open>None\<close> for -1).
\<close>

definition rfind :: "char \<Rightarrow> string \<Rightarrow> nat option" where
  "rfind c s =
     (if c \<in> set s
      then Some (length s - 1 - length (takeWhile (\<lambda>x. x \<noteq> c) (rev s)))
      else None)"

definition path_stem :: "string \<Rightarrow> string" where
  "path_stem name =
     (case rfind CHR ''.'' name of
        None \<Rightarrow> name
      | Some i \<Rightarrow> if 0 < i \<and> i < length name - 1 then take i name else name)"

text \<open>\<^verbatim>\<open>s.replace(a, b)\<close> for single characters.\<close>

definition replace_char :: "char \<Rightarrow> char \<Rightarrow> string \<Rightarrow> string" where
  "replace_char a b s = map (\<lambda>c. if c = a then b else c) s"

text \<open>
  \<^verbatim>\<open>s.title()\<close>: a character that follows a cased character is lowered, any other
  character is put in title case; the result is a list of code points. Below 256 the
  cased characters are the ASCII and Latin-1 letters and the three signs U+00AA, U+00B5
  and U+00BA. The title case of a lower-case letter is its capital, which for U+00B5 is
  U+039C and for U+00FF is U+0178; the title case of U+00DF is the two letters
  \<^verbatim>\<open>Ss\<close>.
\<close>

definition is_cased :: "char \<Rightarrow> bool" where
  "is_cased c \<longleftrightarrow>
     (65 \<le> code c \<and> code c \<le> 90) \<or> (97 \<le> code c \<and> code c \<le> 122) \<or>
     code c = 170 \<or> code c = 181 \<or> code c = 186 \<or>
     (192 \<le> code c \<and> code c \<le> 214) \<or> (216 \<le> code c \<and> code c \<le> 246) \<or>
     (248 \<le> code c \<and> code c \<le> 255)"

definition title_char :: "char \<Rightarrow> nat list" where
  "title_char c =
     (if code c = 181 then [924]
      else if code c = 223 then [83, 115]
      else if code c = 255 then [376]
      else if is_lower8 c then [code c - 32]
      else [code c])"

fun title_from :: "bool \<Rightarrow> string \<Rightarrow> nat list" where
  "title_from previous_is_cased [] = []"
| "title_from previous_is_cased (c # cs) =
     (if previous_is_cased then [code (lower_char c)] else title_char c)
     @ title_from (is_cased c) cs"

definition py_title :: "string \<Rightarrow> nat list" where
  "py_title s = title_from False s"

text \<open>\<^verbatim>\<open>s.strip()\<close>\<close>

definition py_strip :: "string \<Rightarrow> string" where
  "py_strip s = rev (dropWhile py_isspace (rev (dropWhile py_isspace s)))"

text \<open>
  The loop of \<^verbatim>\<open>_load_policies_from_disk\<close> over the sorted files, from clock reading
  \<open>k\<close> on: the policies read, or the exception of the first file that cannot be read,
  and the number of the next clock reading. Each dictionary reads the clock before it
  reads the file.
\<close>

fun read_policies ::
  "(nat \<Rightarrow> string) \<Rightarrow> nat \<Rightarrow> policy_file list \<Rightarrow> (error + policy list) \<times> nat" where
  "read_policies clk k [] = (Inr [], k)"
| "read_policies clk k (f # fs) =
     (case file_text f of
        None \<Rightarrow> (Inl (ReadError (file_name f)), Suc k)
      | Some t \<Rightarrow>
          (case read_policies clk (Suc k) fs of
             (Inl err, k') \<Rightarrow> (Inl err, k')
           | (Inr ps, k') \<Rightarrow>
               (Inr (\<lparr>policy_id = replace_char CHR ''_'' CHR ''-'' (path_stem (file_name f)),
                      policy_name =
                        py_title (replace_char CHR ''_'' CHR '' '' (path_stem (file_name f))),
                      policy_description = ''Loaded from disk: '' @ file_name f,
                      policy_version = ''1.0'',
                      policy_updatedAtIso = clk k,
                      policy_text = t\<rparr> # ps), k')))"

text \<open>
  \<^verbatim>\<open>_load_policies_from_disk(force)\<close>, called at the start of \<^verbatim>\<open>scan_once\<close>: what it
  returns or raises, the state after it and the number of the next clock reading. An
  exception leaves the state as it was.
\<close>

definition load_policies_from_disk ::
  "env \<Rightarrow> bool \<Rightarrow> scan_state \<Rightarrow> (error + bool) \<times> scan_state \<times> nat" where
  "load_policies_from_disk e force st =
     (let latest = policies_max_mtime e in
      if \<not> force \<and> (case (policies_mtime st, latest) of
                        (Some m, Some l) \<Rightarrow> l \<le> m
                      | _ \<Rightarrow> False)
      then (Inr False, st, 0)
      else (case read_policies (clock e) 0 (case policies_dir e of None \<Rightarrow> [] | Some fs \<Rightarrow> fs) of
              (Inl err, k) \<Rightarrow> (Inl err, st, k)
            | (Inr ps, k) \<Rightarrow> (Inr True, st\<lparr>policies := ps, policies_mtime := latest\<rparr>, k)))"

section \<open>One scan cycle\<close>

text \<open>How a call of \<^verbatim>\<open>scan_once\<close> ends.\<close>

datatype outcome = MissingSource | NotDue | Scanned diff | Raised error

text \<open>
  \<^verbatim>\<open>scan_once(force)\<close> as one thread runs it: the state after the call and how it
  ended. An exception of the policy reload is caught (line 132); an exception of the
  detection pipeline leaves the call after \<^verbatim>\<open>_doc_mtime\<close> was written.
\<close>

definition scan_once :: "env \<Rightarrow> bool \<Rightarrow> scan_state \<Rightarrow> scan_state \<times> outcome" where
  "scan_once e force st =
     (case load_policies_from_disk e False st of
        (r, st1, k) \<Rightarrow>
          (let policies_changed = (case r of Inr b \<Rightarrow> b | Inl err \<Rightarrow> False) in
           case doc_file e of
             None \<Rightarrow>
               (st1\<lparr>last_scan_error := Some (''Missing source file: '' @ doc_path e),
                    last_scan_iso := Some (clock e k)\<rparr>, MissingSource)
           | Some (mtime, text) \<Rightarrow>
               (let doc_changed = (case doc_mtime st1 of None \<Rightarrow> True | Some m \<Rightarrow> mtime > m) in
                if \<not> force \<and> \<not> policies_changed \<and> \<not> doc_changed
                then (st1, NotDue)
                else
                  (let st2 = st1\<lparr>doc_mtime := Some mtime\<rparr>;
                       existing = violations st2;
                       existing_open = filter is_open existing;
                       doc_text = py_strip text
                   in case analyze (OPENAI_API_KEY e) (openai e) doc_text (policies st2)
                             existing_open of
                        Inl err \<Rightarrow> (st2, Raised err)
                      | Inr detected_open \<Rightarrow>
                          (case reconcile (clock e k) existing detected_open of
                             (ledger, d) \<Rightarrow>
                               (st2\<lparr>violations := ledger,
                                    last_scan_iso := Some (clock e (Suc k)),
                                    last_scan_error := None\<rparr>, Scanned d))))))"

text \<open>The number of the clock reading that follows the reload at the start of a cycle.\<close>

definition next_reading :: "env \<Rightarrow> scan_state \<Rightarrow> nat" where
  "next_reading e st = snd (snd (load_policies_from_disk e False st))"

text \<open>
  A state on which the next unforced cycle is not due: the reload returns \<^verbatim>\<open>False\<close> or
  raises, and the document is no newer than the stored signal.
\<close>

definition rested :: "env \<Rightarrow> scan_state \<Rightarrow> bool" where
  "rested e st \<longleftrightarrow>
     (\<exists>k. load_policies_from_disk e False st = (Inr False, st, k) \<or>
          (\<exists>err. load_policies_from_disk e False st = (Inl err, st, k))) \<and>
     (\<exists>mtime text m. doc_file e = Some (mtime, text) \<and> doc_mtime st = Some m \<and> mtime \<le> m)"

section \<open>Reading one pass of the first loop\<close>

text \<open>
  What the first loop does with one entry, read off \<open>reconcile_old\<close> run on the initial
  values of the locals: the entry it appends and what it adds to each counter.
\<close>

definition has_id :: "violation \<Rightarrow> bool" where
  "has_id v \<longleftrightarrow> vid v \<noteq> None"

definition old_after :: "string \<Rightarrow> (string \<times> violation) list \<Rightarrow> violation \<Rightarrow> violation" where
  "old_after now det old = hd (updated (reconcile_old now det old racc0))"

definition old_changed :: "string \<Rightarrow> (string \<times> violation) list \<Rightarrow> violation \<Rightarrow> bool" where
  "old_changed now det old = changed (reconcile_old now det old racc0)"

definition old_reopened :: "string \<Rightarrow> (string \<times> violation) list \<Rightarrow> violation \<Rightarrow> nat" where
  "old_reopened now det old = reopened (reconcile_old now det old racc0)"

definition old_resolved :: "string \<Rightarrow> (string \<times> violation) list \<Rightarrow> violation \<Rightarrow> nat" where
  "old_resolved now det old = resolved (reconcile_old now det old racc0)"

text \<open>The detections the second loop turns into new entries.\<close>

definition new_of :: "violation list \<Rightarrow> violation list \<Rightarrow> (string \<times> violation) list" where
  "new_of existing detected_open =
     filter (\<lambda>p. map_of (by_id existing) (fst p) = None) (by_id detected_open)"

definition is_resolved :: "violation \<Rightarrow> bool" where
  "is_resolved v \<longleftrightarrow> getd (items v) ''status'' (PStr ''OPEN'') = PStr ''RESOLVED''"

text \<open>The identities of a ledger, in its order.\<close>

definition ids_of :: "violation list \<Rightarrow> string list" where
  "ids_of L = List.map_filter vid L"

text \<open>The entries of a ledger that carry the identity \<open>X\<close>.\<close>

definition with_id :: "string \<Rightarrow> violation \<Rightarrow> bool" where
  "with_id X v \<longleftrightarrow> vid v = Some X"

text \<open>
  An entry on which a detection \<open>d\<close> of the same identity changes no descriptive key and
  reopens nothing (\<open>quiet\<close>), and one that the first loop leaves as it is (\<open>settled\<close>).
\<close>

definition quiet :: "pydict \<Rightarrow> pydict \<Rightarrow> bool" where
  "quiet d it \<longleftrightarrow>
     getd it ''status'' (PStr ''OPEN'') \<noteq> PStr ''RESOLVED'' \<and>
     (\<forall>k\<in>set mutable_keys. getv d k = PNone \<or> getv d k = getv it k)"

definition settled :: "string \<Rightarrow> pydict \<Rightarrow> pydict \<Rightarrow> bool" where
  "settled now d it \<longleftrightarrow>
     quiet d it \<and> getv it ''firstSeenIso'' \<noteq> PNone \<and> it ''lastSeenIso'' = Some (PStr now)"

definition calm :: "string \<Rightarrow> (string \<times> violation) list \<Rightarrow> violation \<Rightarrow> bool" where
  "calm now det v \<longleftrightarrow>
     has_id v \<and> \<not> old_changed now det v \<and> old_reopened now det v = 0 \<and> old_resolved now det v = 0"

text \<open>
  A detection that brings no \<^verbatim>\<open>lastSeenIso\<close> of its own other than \<open>now\<close>, and no
  \<^verbatim>\<open>firstSeenIso\<close> that is \<^verbatim>\<open>None\<close>. The heuristic detector's records carry
  neither key.
\<close>

definition plain_seen :: "string \<Rightarrow> violation \<Rightarrow> bool" where
  "plain_seen now d \<longleftrightarrow>
     items d ''firstSeenIso'' \<noteq> Some PNone \<and>
     (items d ''lastSeenIso'' = None \<or> items d ''lastSeenIso'' = Some (PStr now))"

text \<open>
  The keys \<^verbatim>\<open>_reconcile\<close> may write in an entry of the existing ledger; an entry is
  \<open>kept\<close> when it has the same identity and the same value under every other key.
\<close>

definition volatile_keys :: "string list" where
  "volatile_keys = [''firstSeenIso'', ''lastSeenIso'', ''status'', ''resolvedAtIso''] @ mutable_keys"

definition kept :: "violation \<Rightarrow> violation \<Rightarrow> bool" where
  "kept v w \<longleftrightarrow> vid w = vid v \<and> (\<forall>k. k \<notin> set volatile_keys \<longrightarrow> items w k = items v k)"

section \<open>Sample data\<close>

text \<open>Two ledger entries, one open and one resolved, and a detection of the second.\<close>

definition t0 :: string where
  "t0 = ''2026-01-01T00:00:00Z''"

definition t1 :: string where
  "t1 = ''2026-01-02T00:00:00Z''"

definition t2 :: string where
  "t2 = ''2026-01-03T00:00:00Z''"

definition v_open :: violation where
  "v_open = \<lparr>vid = Some ''b-003'',
             items = [''title'' \<mapsto> PStr ''Secret/token-like string found'',
                      ''status'' \<mapsto> PStr ''OPEN'',
                      ''firstSeenIso'' \<mapsto> PStr t0, ''lastSeenIso'' \<mapsto> PStr t0,
                      ''createdAtIso'' \<mapsto> PStr t0, ''read'' \<mapsto> PBool False,
                      ''resolvedAtIso'' \<mapsto> PNone]\<rparr>"

definition v_resolved :: violation where
  "v_resolved = \<lparr>vid = Some ''b-004'',
                 items = [''title'' \<mapsto> PStr ''Indefinite retention'',
                          ''status'' \<mapsto> PStr ''RESOLVED'',
                          ''firstSeenIso'' \<mapsto> PStr t0, ''lastSeenIso'' \<mapsto> PStr t0,
                          ''createdAtIso'' \<mapsto> PStr t0, ''read'' \<mapsto> PBool True,
                          ''resolvedAtIso'' \<mapsto> PStr t0]\<rparr>"

definition d_retention :: violation where
  "d_retention = \<lparr>vid = Some ''b-004'',
                  items = [''title'' \<mapsto> PStr ''Indefinite retention / no deletion mentioned'',
                           ''severity'' \<mapsto> PStr ''high'']\<rparr>"

text \<open>A detection that carries a \<^verbatim>\<open>lastSeenIso\<close> of its own, an entry with no identity,
  and a detection of the open entry.\<close>

definition d_seen :: violation where
  "d_seen = \<lparr>vid = Some ''b-004'',
             items = [''title'' \<mapsto> PStr ''Indefinite retention / no deletion mentioned'',
                      ''lastSeenIso'' \<mapsto> PStr t0]\<rparr>"

definition v_anonymous :: violation where
  "v_anonymous = \<lparr>vid = None, items = [''title'' \<mapsto> PStr ''Possible personal data in document'',
                                        ''status'' \<mapsto> PStr ''OPEN'']\<rparr>"

text \<open>A detection that is new to the sample ledger.\<close>

definition d_public :: violation where
  "d_public = \<lparr>vid = Some ''b-002'',
               items = [''title'' \<mapsto> PStr ''Document appears to be shared publicly'',
                        ''severity'' \<mapsto> PStr ''high'']\<rparr>"

definition d_token :: violation where
  "d_token = \<lparr>vid = Some ''b-003'',
              items = [''title'' \<mapsto> PStr ''Secret/token-like string found'',
                       ''severity'' \<mapsto> PStr ''high'']\<rparr>"

text \<open>A policy, two stand-ins for the language model, and surroundings of a scan cycle.\<close>

definition secrets_policy :: policy where
  "secrets_policy = \<lparr>policy_id = ''secrets-handling'', policy_name = map code ''Secrets Handling'',
     policy_description = ''Loaded from disk: secrets_handling.md'', policy_version = ''1.0'',
     policy_updatedAtIso = t0, policy_text = ''Never store tokens in shared docs.''\<rparr>"

definition failing_detector :: detector where
  "failing_detector doc_text ps existing_open = Inl (DetectorError ''timeout'')"

definition silent_detector :: detector where
  "silent_detector doc_text ps existing_open = Inr []"

definition st_init :: scan_state where
  "st_init = \<lparr>sources = [], policies = [], violations = [], last_scan_iso = None,
              last_scan_error = None, doc_mtime = None, policies_mtime = None\<rparr>"

definition gdpr_file :: policy_file where
  "gdpr_file = \<lparr>file_name = ''gdpr.md'', st_mtime = Some 50, file_text = Some ''Personal data must be protected.''\<rparr>"

definition e_first :: env where
  "e_first = \<lparr>policies_dir = Some [gdpr_file], doc_path = ''data/sources/google_drive/user_journey.txt'',
              doc_file = Some (100, ''All good.''), clock = (\<lambda>k. t1),
              OPENAI_API_KEY = Some ''sk-test'', openai = silent_detector\<rparr>"

definition e_second :: env where
  "e_second = e_first\<lparr>clock := (\<lambda>k. t2)\<rparr>"

definition e_nopol :: env where
  "e_nopol = e_first\<lparr>policies_dir := Some []\<rparr>"

definition e_nopol_later :: env where
  "e_nopol_later = e_nopol\<lparr>clock := (\<lambda>k. t2)\<rparr>"

definition e_missing :: env where
  "e_missing = e_first\<lparr>doc_file := None\<rparr>"

section \<open>Properties of reconciliation\<close>

subsection \<open>The loop over the descriptive keys\<close>

lemma update_fields_frame:
  "k \<notin> set ks \<Longrightarrow> fst (update_fields d ks (old, ch)) k = old k"
  by (induction ks arbitrary: old ch) auto

lemma update_fields_fst:
  "fst (update_fields d ks (old, ch)) = fst (update_fields d ks (old, False))"
  by (induction ks arbitrary: old ch) auto

lemma update_fields_True: "snd (update_fields d ks (old, True))"
  by (induction ks arbitrary: old) auto

lemma update_fields_snd:
  "snd (update_fields d ks (old, ch)) = (ch \<or> snd (update_fields d ks (old, False)))"
  by (cases ch) (simp_all add: update_fields_True)

lemma update_fields_stable:
  "\<forall>k\<in>set ks. getv d k = PNone \<or> getv d k = getv old k \<Longrightarrow>
   update_fields d ks (old, ch) = (old, ch)"
  by (induction ks arbitrary: old ch) auto

lemma update_fields_result:
  "distinct ks \<Longrightarrow> k \<in> set ks \<Longrightarrow>
   getv d k = PNone \<or> getv d k = getv (fst (update_fields d ks (old, ch))) k"
proof (induction ks arbitrary: old ch)
  case Nil
  then show ?case by simp
next
  case (Cons a ks)
  show ?case
  proof (cases "k = a")
    case True
    then have "a \<notin> set ks" using Cons.prems by simp
    then show ?thesis using True
      by (auto simp: update_fields_frame getv_def)
  next
    case False
    then show ?thesis using Cons by auto
  qed
qed

lemma status_not_mutable:
  "''status'' \<notin> set mutable_keys" "''resolvedAtIso'' \<notin> set mutable_keys"
  by (simp_all add: mutable_keys_def)

subsection \<open>The invariant on \<^verbatim>\<open>resolvedAtIso\<close>\<close>

lemma reconcile_old_inv:
  assumes "\<forall>v\<in>set (updated a). resolved_inv v" "resolved_inv old"
  shows "\<forall>v\<in>set (updated (reconcile_old now det old a)). resolved_inv v"
  using assms
  by (auto simp: reconcile_old_def resolved_inv_def Let_def getv_def getd_def touch_seen_def
      update_fields_frame [OF status_not_mutable(1)] update_fields_frame [OF status_not_mutable(2)]
      split: option.splits)

lemma reconcile_existing_inv:
  "\<forall>v\<in>set (updated a). resolved_inv v \<Longrightarrow> \<forall>v\<in>set olds. resolved_inv v \<Longrightarrow>
   \<forall>v\<in>set (updated (reconcile_existing now det olds a)). resolved_inv v"
proof (induction olds arbitrary: a)
  case Nil
  then show ?case by simp
next
  case (Cons old olds)
  have old: "resolved_inv old" and olds: "\<forall>v\<in>set olds. resolved_inv v"
    using Cons.prems(2) by simp_all
  have "\<forall>v\<in>set (updated (reconcile_old now det old a)). resolved_inv v"
    using Cons.prems(1) old by (rule reconcile_old_inv)
  then have "\<forall>v\<in>set (updated (reconcile_existing now det olds
      (reconcile_old now det old a))). resolved_inv v"
    using olds by (rule Cons.IH)
  then show ?case by simp
qed

lemma new_item_inv: "resolved_inv (new_item now d)"
  by (simp add: new_item_def resolved_inv_def getv_def Let_def)

lemma reconcile_new_inv:
  "\<forall>v\<in>set (updated a). resolved_inv v \<Longrightarrow>
   \<forall>v\<in>set (updated (reconcile_new now ex det a)). resolved_inv v"
proof (induction det arbitrary: a)
  case Nil
  then show ?case by simp
next
  case (Cons p det)
  obtain i d where p: "p = (i, d)" by (cases p)
  let ?a = "a\<lparr>updated := new_item now d # updated a, new_count := new_count a + 1,
               changed := True\<rparr>"
  have "\<forall>v\<in>set (updated ?a). resolved_inv v"
    using Cons.prems by (simp add: new_item_inv)
  then have "\<forall>v\<in>set (updated (reconcile_new now ex det ?a)). resolved_inv v"
    by (rule Cons.IH)
  moreover have "\<forall>v\<in>set (updated (reconcile_new now ex det a)). resolved_inv v"
    using Cons.prems by (rule Cons.IH)
  ultimately show ?case unfolding p by simp
qed

text \<open>
  C7. If every entry of the ledger handed to \<^verbatim>\<open>_reconcile\<close> has
  \<^verbatim>\<open>resolvedAtIso\<close> set exactly when its status is \<^verbatim>\<open>"RESOLVED"\<close>, then so has
  every entry of the ledger it returns: entries kept, reopened, resolved and newly made.
\<close>

theorem reconcile_keeps_resolved_inv:
  assumes "\<forall>v\<in>set existing. resolved_inv v"
  shows "\<forall>v\<in>set (fst (reconcile now existing detected_open)). resolved_inv v"
proof -
  have "\<forall>v\<in>set (updated racc0). resolved_inv v"
    by (simp add: racc0_def)
  then have "\<forall>v\<in>set (updated (reconcile_existing now (by_id detected_open) existing racc0)).
      resolved_inv v"
    using assms by (rule reconcile_existing_inv)
  then have "\<forall>v\<in>set (updated (reconcile_new now (by_id existing) (by_id detected_open)
      (reconcile_existing now (by_id detected_open) existing racc0))). resolved_inv v"
    by (rule reconcile_new_inv)
  then show ?thesis by (simp add: reconcile_def Let_def)
qed

theorem reconcile_keeps_resolved_inv_witness:
  "resolved_inv v_open \<and> resolved_inv v_resolved \<and>
   list_all resolved_inv (fst (reconcile t1 [v_open, v_resolved] [d_retention]))"
proof -
  have h: "\<forall>v\<in>set [v_open, v_resolved]. resolved_inv v"
    by (simp add: v_open_def v_resolved_def resolved_inv_def getv_def)
  show ?thesis
    using h reconcile_keeps_resolved_inv [OF h, of t1 "[d_retention]"]
    by (simp add: list_all_iff)
qed

subsection \<open>The index by identity\<close>

lemma map_of_dict_put: "map_of (dict_put k v m) = (map_of m)(k \<mapsto> v)"
  by (induction m) (auto simp: fun_eq_iff)

lemma set_dict_put: "set (dict_put k v m) \<subseteq> insert (k, v) (set m)"
  by (induction m) (auto split: if_splits)

lemma keys_dict_put: "fst ` set (dict_put k v m) = insert k (fst ` set m)"
  by (simp add: dom_map_of_conv_image_fst [symmetric] map_of_dict_put)

lemma distinct_dict_put: "distinct (map fst m) \<Longrightarrow> distinct (map fst (dict_put k v m))"
proof (induction m)
  case Nil
  then show ?case by simp
next
  case (Cons p m)
  obtain k' v' where p: "p = (k', v')" by (cases p)
  show ?case
  proof (cases "k = k'")
    case True
    then show ?thesis using Cons.prems p by simp
  next
    case False
    have "k' \<notin> fst ` set (dict_put k v m)"
      using Cons.prems False p by (simp add: keys_dict_put)
    then show ?thesis using Cons p False by simp
  qed
qed

lemma by_id_into_key:
  "(map_of (by_id_into m vs) i \<noteq> None) = (map_of m i \<noteq> None \<or> (\<exists>v\<in>set vs. vid v = Some i))"
  by (induction vs arbitrary: m) (auto simp: map_of_dict_put split: option.splits)

lemma by_id_key: "(map_of (by_id vs) i \<noteq> None) = (\<exists>v\<in>set vs. vid v = Some i)"
  using by_id_into_key [of "[]" vs i] by (simp add: by_id_def)

lemma by_id_into_entry:
  "\<forall>p\<in>set m. vid (snd p) = Some (fst p) \<and> P (snd p) \<Longrightarrow> \<forall>v\<in>set vs. P v \<Longrightarrow>
   p \<in> set (by_id_into m vs) \<Longrightarrow> vid (snd p) = Some (fst p) \<and> P (snd p)"
proof (induction vs arbitrary: m)
  case Nil
  then show ?case by simp
next
  case (Cons v vs)
  show ?case
  proof (cases "vid v")
    case None
    then show ?thesis using Cons by simp
  next
    case (Some i)
    have "\<forall>p\<in>set (dict_put i v m). vid (snd p) = Some (fst p) \<and> P (snd p)"
      using set_dict_put [of i v m] Cons.prems(1,2) Some by auto
    then show ?thesis using Cons.IH [of "dict_put i v m"] Cons.prems Some by simp
  qed
qed

lemma by_id_entry:
  assumes "\<forall>v\<in>set vs. P v" "p \<in> set (by_id vs)"
  shows "vid (snd p) = Some (fst p) \<and> P (snd p)"
  using by_id_into_entry [of "[]" P vs p] assms by (simp add: by_id_def)

lemma by_id_lookup:
  assumes "\<forall>v\<in>set vs. P v" "map_of (by_id vs) i = Some d"
  shows "vid d = Some i \<and> P d"
  using by_id_entry [OF assms(1), of "(i, d)"] map_of_SomeD [OF assms(2)] by simp

lemma distinct_by_id_into: "distinct (map fst m) \<Longrightarrow> distinct (map fst (by_id_into m vs))"
  by (induction vs arbitrary: m) (auto simp: distinct_dict_put split: option.splits)

lemma distinct_by_id: "distinct (map fst (by_id vs))"
  by (simp add: by_id_def distinct_by_id_into)

lemma by_id_member_lookup: "(i, d) \<in> set (by_id vs) \<Longrightarrow> map_of (by_id vs) i = Some d"
  using distinct_by_id by (rule map_of_is_SomeI)

subsection \<open>The two loops, entry by entry\<close>

lemma reconcile_old_acc:
  "reconcile_old now det old a =
     (if has_id old
      then a\<lparr>updated := updated a @ [old_after now det old],
             changed := changed a \<or> old_changed now det old,
             reopened := reopened a + old_reopened now det old,
             resolved := resolved a + old_resolved now det old\<rparr>
      else a)"
  by (auto simp: reconcile_old_def has_id_def old_after_def old_changed_def old_reopened_def
      old_resolved_def racc0_def Let_def update_fields_True
      update_fields_fst [of _ _ _ True] update_fields_fst [of _ _ _ "changed a"]
      update_fields_snd [of _ _ _ "changed a"]
      split: option.splits)

lemma reconcile_existing_acc:
  "reconcile_existing now det olds a =
     a\<lparr>updated := updated a @ map (old_after now det) (filter has_id olds),
       changed := changed a \<or> (\<exists>v\<in>set (filter has_id olds). old_changed now det v),
       reopened := reopened a + sum_list (map (old_reopened now det) (filter has_id olds)),
       resolved := resolved a + sum_list (map (old_resolved now det) (filter has_id olds))\<rparr>"
proof (induction olds arbitrary: a)
  case Nil
  then show ?case by simp
next
  case (Cons old olds)
  show ?case
    by (simp add: Cons.IH reconcile_old_acc)
qed

lemma reconcile_new_acc:
  "reconcile_new now ex det a =
     a\<lparr>updated := rev (map (new_item now \<circ> snd) (filter (\<lambda>p. map_of ex (fst p) = None) det))
                    @ updated a,
       new_count := new_count a + length (filter (\<lambda>p. map_of ex (fst p) = None) det),
       changed := changed a \<or> filter (\<lambda>p. map_of ex (fst p) = None) det \<noteq> []\<rparr>"
proof (induction det arbitrary: a)
  case Nil
  then show ?case by simp
next
  case (Cons p det)
  obtain i d where p: "p = (i, d)" by (cases p)
  show ?case unfolding p
    by (simp add: Cons.IH)
qed

lemma reconcile_ledger:
  "fst (reconcile now existing detected_open) =
     rev (map (new_item now \<circ> snd) (new_of existing detected_open)) @
     map (old_after now (by_id detected_open)) (filter has_id existing)"
  by (simp add: reconcile_def Let_def reconcile_new_acc reconcile_existing_acc new_of_def racc0_def)

lemma reconcile_changed:
  "diff_changed (snd (reconcile now existing detected_open)) =
     ((\<exists>v\<in>set (filter has_id existing). old_changed now (by_id detected_open) v) \<or>
      new_of existing detected_open \<noteq> [])"
  by (simp add: reconcile_def Let_def reconcile_new_acc reconcile_existing_acc new_of_def racc0_def)

lemma reconcile_reopened:
  "diff_reopened (snd (reconcile now existing detected_open)) =
     sum_list (map (old_reopened now (by_id detected_open)) (filter has_id existing))"
  by (simp add: reconcile_def Let_def reconcile_new_acc reconcile_existing_acc new_of_def racc0_def)

lemma reconcile_resolved:
  "diff_resolved (snd (reconcile now existing detected_open)) =
     sum_list (map (old_resolved now (by_id detected_open)) (filter has_id existing))"
  by (simp add: reconcile_def Let_def reconcile_new_acc reconcile_existing_acc new_of_def racc0_def)

lemma reconcile_new_count:
  "diff_new (snd (reconcile now existing detected_open)) = length (new_of existing detected_open)"
  by (simp add: reconcile_def Let_def reconcile_new_acc reconcile_existing_acc new_of_def racc0_def)

subsection \<open>What one pass leaves behind\<close>

lemma distinct_mutable_keys: "distinct mutable_keys"
  by (simp add: mutable_keys_def)

lemma seen_not_mutable:
  "''firstSeenIso'' \<notin> set mutable_keys" "''lastSeenIso'' \<notin> set mutable_keys"
  by (simp_all add: mutable_keys_def)

lemma py_or_not_None: "py_or x (PStr now) \<noteq> PNone"
  by (cases x) (auto simp: py_or_def)

lemma touch_seen_first: "getv (touch_seen now it) ''firstSeenIso'' \<noteq> PNone"
  by (simp add: touch_seen_def getv_def py_or_not_None)

lemma touch_seen_last: "touch_seen now it ''lastSeenIso'' = Some (PStr now)"
  by (simp add: touch_seen_def)

lemma touch_seen_status: "touch_seen now it ''status'' = it ''status''"
  by (simp add: touch_seen_def)

lemma touch_seen_fix:
  "getv it ''firstSeenIso'' \<noteq> PNone \<Longrightarrow> it ''lastSeenIso'' = Some (PStr now) \<Longrightarrow>
   touch_seen now it = it"
  by (auto simp: touch_seen_def fun_eq_iff)

lemma touch_seen_frame:
  "k \<noteq> ''firstSeenIso'' \<Longrightarrow> k \<noteq> ''lastSeenIso'' \<Longrightarrow> touch_seen now it k = it k"
  by (simp add: touch_seen_def)

lemma old_quiet_changed:
  assumes "vid v = Some i" "map_of det i = Some d" "quiet (items d) (items v)"
  shows "\<not> old_changed now det v" "old_reopened now det v = 0" "old_resolved now det v = 0"
proof -
  have "quiet (items d) (touch_seen now (items v))"
    using assms(3) unfolding quiet_def
    by (auto simp: touch_seen_def getd_def getv_def mutable_keys_def)
  then have "update_fields (items d) mutable_keys (touch_seen now (items v), False)
      = (touch_seen now (items v), False)"
    by (intro update_fields_stable) (simp add: quiet_def)
  then show "\<not> old_changed now det v" "old_reopened now det v = 0" "old_resolved now det v = 0"
    using assms
    by (simp_all add: old_changed_def old_reopened_def old_resolved_def reconcile_old_def
        racc0_def quiet_def Let_def)
qed

lemma old_settled_after:
  assumes "vid v = Some i" "map_of det i = Some d" "settled now (items d) (items v)"
  shows "old_after now det v = v"
proof -
  have t: "touch_seen now (items v) = items v"
    using assms(3) by (simp add: settled_def touch_seen_fix)
  have "update_fields (items d) mutable_keys (items v, False) = (items v, False)"
    using assms(3) by (intro update_fields_stable) (simp add: settled_def quiet_def)
  then show ?thesis
    using assms t
    by (simp add: old_after_def reconcile_old_def racc0_def settled_def quiet_def Let_def)
qed

lemma old_after_vid: "has_id v \<Longrightarrow> vid (old_after now det v) = vid v"
  by (auto simp: old_after_def reconcile_old_def racc0_def has_id_def Let_def split: option.splits)

lemma old_after_detected:
  assumes "vid v = Some i" "map_of det i = Some d"
  shows "settled now (items d) (items (old_after now det v))"
proof -
  define old2 where "old2 = (if getd (items v) ''status'' (PStr ''OPEN'') = PStr ''RESOLVED''
      then (touch_seen now (items v))(''status'' \<mapsto> PStr ''OPEN'', ''resolvedAtIso'' \<mapsto> PNone)
      else touch_seen now (items v))"
  define it where "it = fst (update_fields (items d) mutable_keys (old2, False))"
  have after: "items (old_after now det v) = it"
    using assms
    by (simp add: old_after_def reconcile_old_def racc0_def Let_def it_def old2_def
        update_fields_fst [of _ _ _ True])
  have st: "it ''status'' = old2 ''status''"
    unfolding it_def by (rule update_fields_frame) (rule status_not_mutable)
  have fs: "it ''firstSeenIso'' = old2 ''firstSeenIso''"
    unfolding it_def by (rule update_fields_frame) (rule seen_not_mutable)
  have ls: "it ''lastSeenIso'' = old2 ''lastSeenIso''"
    unfolding it_def by (rule update_fields_frame) (rule seen_not_mutable)
  have 1: "getd it ''status'' (PStr ''OPEN'') \<noteq> PStr ''RESOLVED''"
    using st by (simp add: getd_def old2_def touch_seen_status)
  have 2: "\<forall>k\<in>set mutable_keys. getv (items d) k = PNone \<or> getv (items d) k = getv it k"
    unfolding it_def using update_fields_result [OF distinct_mutable_keys] by blast
  have 3: "getv it ''firstSeenIso'' \<noteq> PNone"
    using touch_seen_first [of now "items v"] fs by (simp add: getv_def old2_def)
  have 4: "it ''lastSeenIso'' = Some (PStr now)"
    using ls by (simp add: old2_def touch_seen_last)
  show ?thesis
    unfolding after settled_def quiet_def using 1 2 3 4 by blast
qed

lemma old_after_undetected:
  assumes "vid v = Some i" "map_of det i = None"
  shows "is_resolved (old_after now det v)"
  using assms
  by (simp add: old_after_def reconcile_old_def racc0_def Let_def is_resolved_def getd_def)

lemma old_resolved_fix:
  assumes "vid v = Some i" "map_of det i = None" "is_resolved v"
  shows "old_after now det v = v" "\<not> old_changed now det v"
    "old_reopened now det v = 0" "old_resolved now det v = 0"
  using assms
  by (simp_all add: old_after_def old_changed_def old_reopened_def old_resolved_def
      reconcile_old_def racc0_def Let_def is_resolved_def)

lemma setdefault_other: "k \<noteq> k' \<Longrightarrow> setdefault d k v k' = d k'"
  by (simp add: setdefault_def split: option.splits)

lemma setdefault_same: "setdefault d k v k = Some (case d k of None \<Rightarrow> v | Some w \<Rightarrow> w)"
  by (simp add: setdefault_def split: option.splits)

lemma new_item_vid: "vid (new_item now d) = vid d"
  by (simp add: new_item_def Let_def)

lemma new_item_frame:
  "k \<noteq> ''firstSeenIso'' \<Longrightarrow> k \<noteq> ''lastSeenIso'' \<Longrightarrow> k \<noteq> ''createdAtIso'' \<Longrightarrow>
   k \<noteq> ''read'' \<Longrightarrow> k \<noteq> ''status'' \<Longrightarrow> k \<noteq> ''resolvedAtIso'' \<Longrightarrow>
   items (new_item now d) k = items d k"
  by (simp add: new_item_def Let_def setdefault_other)

lemma new_item_mutable:
  assumes "k \<in> set mutable_keys"
  shows "items (new_item now d) k = items d k"
proof -
  have "k \<noteq> ''firstSeenIso''" "k \<noteq> ''lastSeenIso''" "k \<noteq> ''createdAtIso''"
    "k \<noteq> ''read''" "k \<noteq> ''status''" "k \<noteq> ''resolvedAtIso''"
    using assms by (auto simp: mutable_keys_def)
  then show ?thesis by (rule new_item_frame)
qed

lemma new_item_quiet: "quiet (items d) (items (new_item now d))"
proof -
  have "getd (items (new_item now d)) ''status'' (PStr ''OPEN'') = PStr ''OPEN''"
    by (simp add: new_item_def Let_def getd_def)
  moreover have "\<forall>k\<in>set mutable_keys. getv (items d) k = getv (items (new_item now d)) k"
    using new_item_mutable [of _ now d] by (simp add: getv_def)
  ultimately show ?thesis by (simp add: quiet_def)
qed

lemma new_item_settled:
  assumes "plain_seen now d"
  shows "settled now (items d) (items (new_item now d))"
proof -
  have "items (new_item now d) ''firstSeenIso''
      = Some (case items d ''firstSeenIso'' of None \<Rightarrow> PStr now | Some w \<Rightarrow> w)"
    by (simp add: new_item_def Let_def setdefault_other setdefault_same)
  then have 1: "getv (items (new_item now d)) ''firstSeenIso'' \<noteq> PNone"
    using assms by (auto simp: getv_def plain_seen_def split: option.splits)
  have "items (new_item now d) ''lastSeenIso''
      = Some (case items d ''lastSeenIso'' of None \<Rightarrow> PStr now | Some w \<Rightarrow> w)"
    by (simp add: new_item_def Let_def setdefault_other setdefault_same)
  then have 2: "items (new_item now d) ''lastSeenIso'' = Some (PStr now)"
    using assms by (auto simp: plain_seen_def)
  show ?thesis using 1 2 new_item_quiet by (simp add: settled_def)
qed

subsection \<open>A second pass with the same detections\<close>

lemma second_pass_new:
  assumes "p \<in> set (by_id D)"
  shows "calm now (by_id D) (new_item now (snd p))"
    and "(\<forall>d\<in>set D. plain_seen now d) \<Longrightarrow>
         old_after now (by_id D) (new_item now (snd p)) = new_item now (snd p)"
proof -
  obtain i d where p: "p = (i, d)" by (cases p)
  have look: "map_of (by_id D) i = Some d"
    using assms p by (simp add: by_id_member_lookup)
  have vd: "vid d = Some i"
    using by_id_entry [of D "\<lambda>_. True" p] assms p by simp
  then have vn: "vid (new_item now d) = Some i"
    by (simp add: new_item_vid)
  show "calm now (by_id D) (new_item now (snd p))"
    using old_quiet_changed [OF vn look new_item_quiet] vn by (simp add: calm_def has_id_def p)
  assume "\<forall>d\<in>set D. plain_seen now d"
  then have "plain_seen now d"
    using by_id_entry [of D "plain_seen now" p] assms p by simp
  then have "settled now (items d) (items (new_item now d))"
    by (rule new_item_settled)
  then show "old_after now (by_id D) (new_item now (snd p)) = new_item now (snd p)"
    using old_settled_after [OF vn look] by (simp add: p)
qed

lemma second_pass_old:
  assumes "has_id w"
  shows "calm now det (old_after now det w)"
    and "old_after now det (old_after now det w) = old_after now det w"
proof -
  obtain i where i: "vid w = Some i" using assms by (auto simp: has_id_def)
  then have v: "vid (old_after now det w) = Some i"
    using assms by (simp add: old_after_vid)
  have "calm now det (old_after now det w) \<and>
      old_after now det (old_after now det w) = old_after now det w"
  proof (cases "map_of det i")
    case None
    have "is_resolved (old_after now det w)"
      using i None by (rule old_after_undetected)
    then show ?thesis
      using old_resolved_fix [OF v None] v by (simp add: calm_def has_id_def)
  next
    case (Some d)
    have s: "settled now (items d) (items (old_after now det w))"
      using i Some by (rule old_after_detected)
    then have "quiet (items d) (items (old_after now det w))"
      by (simp add: settled_def)
    then show ?thesis
      using old_quiet_changed [OF v Some] old_settled_after [OF v Some s] v
      by (simp add: calm_def has_id_def)
  qed
  then show "calm now det (old_after now det w)"
    and "old_after now det (old_after now det w) = old_after now det w"
    by simp_all
qed

lemma second_pass_entries:
  assumes "v \<in> set (fst (reconcile now L D))"
  shows "calm now (by_id D) v"
    and "(\<forall>d\<in>set D. plain_seen now d) \<Longrightarrow> old_after now (by_id D) v = v"
proof -
  from assms consider
      (new) p where "p \<in> set (by_id D)" "v = new_item now (snd p)"
    | (old) w where "has_id w" "v = old_after now (by_id D) w"
    by (auto simp: reconcile_ledger new_of_def)
  then have "calm now (by_id D) v \<and>
      ((\<forall>d\<in>set D. plain_seen now d) \<longrightarrow> old_after now (by_id D) v = v)"
  proof cases
    case new
    then show ?thesis using second_pass_new [of p D now] by simp
  next
    case old
    then show ?thesis using second_pass_old [of w now "by_id D"] by simp
  qed
  then show "calm now (by_id D) v"
    and "(\<forall>d\<in>set D. plain_seen now d) \<Longrightarrow> old_after now (by_id D) v = v"
    by simp_all
qed

lemma second_pass_no_new: "new_of (fst (reconcile now L D)) D = []"
proof -
  have "map_of (by_id (fst (reconcile now L D))) (fst p) \<noteq> None" if p: "p \<in> set (by_id D)" for p
  proof (cases "map_of (by_id L) (fst p) = None")
    case True
    then have "new_item now (snd p) \<in> set (fst (reconcile now L D))"
      using p by (auto simp: reconcile_ledger new_of_def)
    moreover have "vid (new_item now (snd p)) = Some (fst p)"
      using by_id_entry [of D "\<lambda>_. True" p] p by (simp add: new_item_vid)
    ultimately show ?thesis unfolding by_id_key by blast
  next
    case False
    then obtain w where w: "w \<in> set L" "vid w = Some (fst p)"
      unfolding by_id_key by blast
    then have "has_id w" by (simp add: has_id_def)
    then have "old_after now (by_id D) w \<in> set (fst (reconcile now L D))"
      and "vid (old_after now (by_id D) w) = Some (fst p)"
      using w by (auto simp: reconcile_ledger old_after_vid)
    then show ?thesis unfolding by_id_key by blast
  qed
  then show ?thesis
    by (simp add: new_of_def filter_empty_conv)
qed

text \<open>
  C1, as the code has it. Running \<^verbatim>\<open>_reconcile\<close> again on the ledger it returned, with
  the same detections and the same timestamp, reports \<^verbatim>\<open>changed = False\<close> and counts
  nothing new, reopened or resolved. The ledger it returns is the same ledger provided no
  detection brings a \<^verbatim>\<open>lastSeenIso\<close> of its own (other than the timestamp) or a
  \<^verbatim>\<open>firstSeenIso\<close> that is \<^verbatim>\<open>None\<close>.
\<close>

theorem reconcile_idempotent:
  "diff_changed (snd (reconcile now (fst (reconcile now L D)) D)) = False \<and>
   diff_new (snd (reconcile now (fst (reconcile now L D)) D)) = 0 \<and>
   diff_reopened (snd (reconcile now (fst (reconcile now L D)) D)) = 0 \<and>
   diff_resolved (snd (reconcile now (fst (reconcile now L D)) D)) = 0 \<and>
   ((\<forall>d\<in>set D. plain_seen now d) \<longrightarrow>
      fst (reconcile now (fst (reconcile now L D)) D) = fst (reconcile now L D))"
proof -
  let ?L' = "fst (reconcile now L D)"
  have calm: "\<forall>v\<in>set ?L'. calm now (by_id D) v"
    using second_pass_entries(1) by blast
  then have ids: "filter has_id ?L' = ?L'"
    by (simp add: calm_def)
  have 1: "diff_changed (snd (reconcile now ?L' D)) = False"
    unfolding reconcile_changed ids second_pass_no_new using calm by (simp add: calm_def)
  have 2: "diff_new (snd (reconcile now ?L' D)) = 0"
    unfolding reconcile_new_count second_pass_no_new by simp
  have 3: "diff_reopened (snd (reconcile now ?L' D)) = 0"
    unfolding reconcile_reopened ids using calm by (simp add: calm_def)
  have 4: "diff_resolved (snd (reconcile now ?L' D)) = 0"
    unfolding reconcile_resolved ids using calm by (simp add: calm_def)
  have 5: "fst (reconcile now ?L' D) = ?L'" if "\<forall>d\<in>set D. plain_seen now d"
  proof -
    have "map (old_after now (by_id D)) ?L' = ?L'"
      using second_pass_entries(2) that by (intro map_idI) blast
    then show ?thesis
      unfolding reconcile_ledger [of now ?L' D] ids second_pass_no_new by simp
  qed
  show ?thesis using 1 2 3 4 5 by blast
qed

theorem reconcile_idempotent_witness:
  "plain_seen t1 d_retention \<and>
   diff_changed (snd (reconcile t1 (fst (reconcile t1 [v_open, v_resolved] [d_retention]))
     [d_retention])) = False \<and>
   fst (reconcile t1 (fst (reconcile t1 [v_open, v_resolved] [d_retention])) [d_retention])
     = fst (reconcile t1 [v_open, v_resolved] [d_retention])"
proof -
  have h: "plain_seen t1 d_retention"
    by (simp add: plain_seen_def d_retention_def)
  show ?thesis
    using h reconcile_idempotent [of t1 "[v_open, v_resolved]" "[d_retention]"] by simp
qed

lemma first_run: "fst (reconcile t1 [] [d_seen]) = [new_item t1 d_seen]"
  by (simp add: reconcile_def by_id_def d_seen_def racc0_def Let_def)

lemma second_run:
  "fst (reconcile t1 [new_item t1 d_seen] [d_seen]) =
     [(new_item t1 d_seen)\<lparr>items := (items (new_item t1 d_seen))(''lastSeenIso'' \<mapsto> PStr t1)\<rparr>]"
  apply (simp add: reconcile_ledger new_of_def by_id_def has_id_def new_item_vid )
  apply (simp add: d_seen_def old_after_def reconcile_old_def racc0_def Let_def new_item_def setdefault_def getd_def getv_def touch_seen_def mutable_keys_def)
  done

text \<open>
  C1 as stated fails: a detection that carries its own \<^verbatim>\<open>lastSeenIso\<close> keeps it in the
  entry made for it (\<^verbatim>\<open>setdefault\<close>), and the second pass overwrites it with the
  timestamp, so the second ledger differs from the first.
\<close>

theorem reconcile_idempotent_counterexample:
  "fst (reconcile t1 (fst (reconcile t1 [] [d_seen])) [d_seen]) \<noteq> fst (reconcile t1 [] [d_seen])"
proof -
  have "items (new_item t1 d_seen) ''lastSeenIso'' = Some (PStr t0)"
    by (simp add: new_item_def d_seen_def setdefault_def Let_def)
  then have "(new_item t1 d_seen)\<lparr>items := (items (new_item t1 d_seen))(''lastSeenIso'' \<mapsto> PStr t1)\<rparr>
      \<noteq> new_item t1 d_seen"
    by (auto simp: t0_def t1_def dest!: arg_cong [where f = "\<lambda>v. items v ''lastSeenIso''"])
  then show ?thesis by (simp add: first_run second_run)
qed

subsection \<open>History\<close>

lemma old_after_kept:
  assumes "has_id v"
  shows "kept v (old_after now det v)"
proof -
  obtain i where i: "vid v = Some i" using assms by (auto simp: has_id_def)
  have "items (old_after now det v) k = items v k" if k: "k \<notin> set volatile_keys" for k
  proof -
    have m: "k \<notin> set mutable_keys" and f: "k \<noteq> ''firstSeenIso''" and l: "k \<noteq> ''lastSeenIso''"
      and s: "k \<noteq> ''status''" and r: "k \<noteq> ''resolvedAtIso''"
      using k by (auto simp: volatile_keys_def)
    show ?thesis
    proof (cases "map_of det i")
      case None
      then show ?thesis using i s r
        by (simp add: old_after_def reconcile_old_def racc0_def Let_def)
    next
      case (Some d)
      then show ?thesis using i s r
        by (simp add: old_after_def reconcile_old_def racc0_def Let_def
            update_fields_frame [OF m] touch_seen_frame [OF f l])
    qed
  qed
  then show ?thesis using assms by (simp add: kept_def old_after_vid)
qed

text \<open>
  The ledger \<^verbatim>\<open>_reconcile\<close> returns is the new entries followed by the entries of the
  old ledger that have an identity, in their old order, each with its identity and with
  every key that reconciliation does not write unchanged. (The docstring of
  \<^verbatim>\<open>_reconcile\<close> says that new entries are appended; line 647 puts them in front.)
\<close>

lemma reconcile_ledger_shape:
  "length (fst (reconcile now L D)) =
     diff_new (snd (reconcile now L D)) + length (filter has_id L) \<and>
   list_all2 kept (filter has_id L)
     (drop (diff_new (snd (reconcile now L D))) (fst (reconcile now L D)))"
proof -
  have "list_all2 kept (filter has_id L) (map (old_after now (by_id D)) (filter has_id L))"
    by (simp add: list_all2_map2 list_all2_same old_after_kept)
  then show ?thesis
    by (simp add: reconcile_ledger reconcile_new_count)
qed

lemma reconcile_ledger_shape_example:
  "has_id v_open \<and> has_id v_resolved \<and> \<not> has_id v_anonymous \<and>
   length (fst (reconcile t1 [v_open, v_anonymous, v_resolved] [d_retention])) = 2 \<and>
   list_all2 kept [v_open, v_resolved]
     (fst (reconcile t1 [v_open, v_anonymous, v_resolved] [d_retention]))"
proof -
  have ids: "has_id v_open" "has_id v_resolved" "\<not> has_id v_anonymous"
    by (simp_all add: has_id_def v_open_def v_resolved_def v_anonymous_def)
  have n: "diff_new (snd (reconcile t1 [v_open, v_anonymous, v_resolved] [d_retention])) = 0"
    by (simp add: reconcile_new_count new_of_def by_id_def v_open_def v_resolved_def
        v_anonymous_def d_retention_def)
  show ?thesis
    using ids n reconcile_ledger_shape [of t1 "[v_open, v_anonymous, v_resolved]" "[d_retention]"]
    by simp
qed

text \<open>
  An entry without an identity is skipped by the first loop (lines 600 to 602). The
  program holds no such entry: it starts from the empty ledger, and every entry of a
  ledger that \<^verbatim>\<open>_reconcile\<close> returns has an identity.
\<close>

lemma reconcile_skips_entry_without_id:
  "fst (reconcile t1 [v_anonymous] []) = []"
  by (simp add: reconcile_def by_id_def v_anonymous_def racc0_def reconcile_old_def Let_def)

lemma reconcile_output_has_ids: "\<forall>v\<in>set (fst (reconcile now L D)). has_id v"
  using second_pass_entries(1) [of _ now L D] by (auto simp: calm_def)

lemma reconcile_pair_has_ids: "reconcile now L D = (ledger, d) \<Longrightarrow> v \<in> set ledger \<Longrightarrow> has_id v"
  using reconcile_output_has_ids [of now L D] by simp

text \<open>
  C3. Reconciliation never destroys history: on a ledger whose entries all have an
  identity, as every ledger of the program has, the ledger returned is the new entries
  followed by every entry of the old ledger, in the old order, each with its identity
  and with every key that reconciliation does not write unchanged.
\<close>

theorem reconcile_keeps_history:
  assumes "\<forall>v\<in>set L. has_id v"
  shows "length (fst (reconcile now L D)) = diff_new (snd (reconcile now L D)) + length L \<and>
     list_all2 kept L (drop (diff_new (snd (reconcile now L D))) (fst (reconcile now L D)))"
proof -
  have "filter has_id L = L" using assms by simp
  then show ?thesis using reconcile_ledger_shape [of now L D] by simp
qed

theorem reconcile_keeps_history_witness:
  "has_id v_open \<and> has_id v_resolved \<and>
   length (fst (reconcile t1 [v_open, v_resolved] [d_retention, d_public])) = 3 \<and>
   list_all2 kept [v_open, v_resolved]
     (drop 1 (fst (reconcile t1 [v_open, v_resolved] [d_retention, d_public])))"
proof -
  have ids: "has_id v_open" "has_id v_resolved"
    by (simp_all add: has_id_def v_open_def v_resolved_def)
  then have h: "\<forall>v\<in>set [v_open, v_resolved]. has_id v" by simp
  have n: "diff_new (snd (reconcile t1 [v_open, v_resolved] [d_retention, d_public])) = 1"
    by (simp add: reconcile_new_count new_of_def by_id_def v_open_def v_resolved_def
        d_retention_def d_public_def)
  show ?thesis
    using ids n reconcile_keeps_history [OF h, of t1 "[d_retention, d_public]"] by simp
qed

subsection \<open>Identities stay unique\<close>

text \<open>
  The data model asks that an identity is in the ledger once. Reconciliation keeps it so,
  and then the entries with one identity are one entry.
\<close>

lemma ids_of_Nil: "ids_of [] = []"
  by (simp add: ids_of_def)

lemma ids_of_Cons:
  "ids_of (v # L) = (case vid v of None \<Rightarrow> ids_of L | Some i \<Rightarrow> i # ids_of L)"
  by (simp add: ids_of_def split: option.splits)

lemma ids_of_append: "ids_of (L @ M) = ids_of L @ ids_of M"
  by (simp add: ids_of_def List.map_filter_def)

lemma ids_of_rev: "ids_of (rev L) = rev (ids_of L)"
  by (simp add: ids_of_def List.map_filter_def rev_map rev_filter)

lemma set_ids_of: "set (ids_of L) = {i. \<exists>v\<in>set L. vid v = Some i}"
  by (induction L) (auto simp: ids_of_Nil ids_of_Cons split: option.splits)

lemma ids_of_olds: "ids_of (map (old_after now det) (filter has_id L)) = ids_of L"
proof (induction L)
  case Nil
  then show ?case by simp
next
  case (Cons v L)
  show ?case
  proof (cases "vid v")
    case None
    then show ?thesis using Cons by (simp add: ids_of_Cons has_id_def)
  next
    case (Some i)
    then have "has_id v" by (simp add: has_id_def)
    then show ?thesis using Cons Some by (simp add: ids_of_Cons old_after_vid)
  qed
qed

lemma ids_of_news:
  "\<forall>p\<in>set ps. vid (snd p) = Some (fst p) \<Longrightarrow>
   ids_of (map (new_item now \<circ> snd) ps) = map fst ps"
  by (induction ps) (auto simp: ids_of_Nil ids_of_Cons new_item_vid)

lemma reconcile_ids:
  "ids_of (fst (reconcile now L D)) = rev (map fst (new_of L D)) @ ids_of L"
proof -
  have "\<forall>p\<in>set (new_of L D). vid (snd p) = Some (fst p)"
    using by_id_entry [of D "\<lambda>_. True"] by (simp add: new_of_def)
  then show ?thesis
    by (simp add: reconcile_ledger ids_of_append ids_of_rev ids_of_olds ids_of_news rev_map)
qed

lemma reconcile_keeps_ids_unique:
  assumes "distinct (ids_of L)"
  shows "distinct (ids_of (fst (reconcile now L D)))"
proof -
  have "distinct (map fst (new_of L D))"
    unfolding new_of_def using distinct_by_id [of D] by (rule distinct_map_filter)
  moreover have "set (map fst (new_of L D)) \<inter> set (ids_of L) = {}"
  proof -
    have "\<not> (\<exists>v\<in>set L. vid v = Some (fst p))" if "p \<in> set (new_of L D)" for p
      using that by_id_key [of L "fst p"] by (simp add: new_of_def)
    then show ?thesis by (auto simp: set_ids_of)
  qed
  ultimately show ?thesis
    using assms by (simp add: reconcile_ids)
qed

lemma no_id_no_entry: "X \<notin> set (ids_of L) \<Longrightarrow> filter (with_id X) L = []"
  by (auto simp: set_ids_of filter_empty_conv with_id_def)

lemma unique_entry:
  "distinct (ids_of L) \<Longrightarrow> x \<in> set L \<Longrightarrow> vid x = Some X \<Longrightarrow> filter (with_id X) L = [x]"
proof (induction L)
  case Nil
  then show ?case by simp
next
  case (Cons v L)
  show ?case
  proof (cases "vid v = Some X")
    case True
    then have "X \<notin> set (ids_of L)" using Cons.prems(1) by (simp add: ids_of_Cons)
    then have none: "filter (with_id X) L = []" by (rule no_id_no_entry)
    then have "x \<notin> set L"
      using Cons.prems(3) by (auto simp: filter_empty_conv with_id_def)
    then have "x = v" using Cons.prems(2) by simp
    moreover have "with_id X v" using True by (simp add: with_id_def)
    ultimately show ?thesis using none by simp
  next
    case False
    then have "x \<in> set L" using Cons.prems(2,3) by auto
    moreover have "distinct (ids_of L)"
      using Cons.prems(1) by (simp add: ids_of_Cons split: option.splits)
    ultimately have "filter (with_id X) L = [x]"
      using Cons.IH Cons.prems(3) by simp
    moreover have "\<not> with_id X v" using False by (simp add: with_id_def)
    ultimately show ?thesis by simp
  qed
qed

subsection \<open>Resolving and reopening\<close>

lemma filter_with_id_old:
  "filter (with_id X) (map (old_after now det) (filter has_id L)) =
     map (old_after now det) (filter (with_id X) L)"
proof (induction L)
  case Nil
  then show ?case by simp
next
  case (Cons v L)
  show ?case
  proof (cases "has_id v")
    case True
    then show ?thesis using Cons by (simp add: with_id_def old_after_vid)
  next
    case False
    then show ?thesis using Cons by (simp add: with_id_def has_id_def)
  qed
qed

lemma filter_with_id_new:
  assumes "\<exists>v\<in>set L. with_id X v"
  shows "filter (with_id X) (rev (map (new_item now \<circ> snd) (new_of L D))) = []"
proof -
  have "\<not> with_id X (new_item now (snd p))" if p: "p \<in> set (new_of L D)" for p
  proof
    assume "with_id X (new_item now (snd p))"
    then have "vid (snd p) = Some X" by (simp add: with_id_def new_item_vid)
    moreover have "vid (snd p) = Some (fst p)"
      using by_id_entry [of D "\<lambda>_. True" p] p by (simp add: new_of_def)
    ultimately have "fst p = X" by simp
    then have "map_of (by_id L) X = None" using p by (simp add: new_of_def)
    then show False using assms by_id_key [of L X] by (auto simp: with_id_def)
  qed
  then show ?thesis by (simp add: filter_empty_conv)
qed

lemma filter_with_id_ledger:
  assumes "filter (with_id X) L = [x]"
  shows "filter (with_id X) (fst (reconcile now L D)) = [old_after now (by_id D) x]"
proof -
  have "x \<in> set (filter (with_id X) L)" using assms by simp
  then have "\<exists>v\<in>set L. with_id X v" by auto
  then show ?thesis
    using assms by (simp add: reconcile_ledger filter_with_id_new filter_with_id_old)
qed

lemma sum_split_id:
  fixes f :: "violation \<Rightarrow> nat"
  shows "sum_list (map f (filter has_id L)) =
     sum_list (map f (filter has_id (filter (\<lambda>v. \<not> with_id X v) L))) +
     sum_list (map f (filter (with_id X) L))"
  by (induction L) (auto simp: with_id_def has_id_def)

lemma reopened_split:
  assumes "filter (with_id X) L = [x]"
  shows "diff_reopened (snd (reconcile now L D)) =
     diff_reopened (snd (reconcile now (filter (\<lambda>v. \<not> with_id X v) L) D)) +
     old_reopened now (by_id D) x"
  unfolding reconcile_reopened using sum_split_id [of "old_reopened now (by_id D)" L X] assms
  by simp

lemma old_reopened_undetected:
  "vid x = Some X \<Longrightarrow> map_of det X = None \<Longrightarrow> old_reopened now det x = 0"
  by (simp add: old_reopened_def reconcile_old_def racc0_def Let_def)

lemma old_reopened_detected:
  "vid x = Some X \<Longrightarrow> map_of det X = Some d \<Longrightarrow> is_resolved x \<Longrightarrow> old_reopened now det x = 1"
  by (simp add: old_reopened_def reconcile_old_def racc0_def Let_def is_resolved_def)

lemma old_after_reopen:
  assumes "vid x = Some X" "map_of det X = Some d" "is_resolved x"
  shows "items (old_after now det x) ''status'' = Some (PStr ''OPEN'')"
    and "items (old_after now det x) ''resolvedAtIso'' = Some PNone"
  using assms
  by (simp_all add: old_after_def reconcile_old_def racc0_def Let_def is_resolved_def
      update_fields_frame [OF status_not_mutable(1)] update_fields_frame [OF status_not_mutable(2)])

lemma old_after_resolve:
  assumes "vid x = Some X" "map_of det X = None" "\<not> is_resolved x"
  shows "items (old_after now det x) ''status'' = Some (PStr ''RESOLVED'')"
    and "items (old_after now det x) ''resolvedAtIso'' = Some (PStr now)"
  using assms
  by (simp_all add: old_after_def reconcile_old_def racc0_def Let_def is_resolved_def)

lemma open_not_resolved: "is_open v \<Longrightarrow> \<not> is_resolved v"
  by (simp add: is_open_def is_resolved_def)

text \<open>
  C4. Let the ledger hold one entry with identity \<open>X\<close> (identities are unique in a
  ledger), and let it be open. A first
  reconciliation whose detections do not mention \<open>X\<close> resolves it; a second one whose
  detections mention \<open>X\<close> leaves one entry for \<open>X\<close>, with status \<^verbatim>\<open>"OPEN"\<close> and
  \<^verbatim>\<open>resolvedAtIso\<close> \<^verbatim>\<open>None\<close>. The entry adds nothing to the first call's
  \<^verbatim>\<open>reopened\<close> counter (the counter is what it would be without the entry) and exactly
  one to the second call's.
\<close>

theorem resolve_reopen_symmetry:
  assumes one: "filter (with_id X) L = [x]"
    and "is_open x"
    and absent: "\<forall>d\<in>set D1. \<not> with_id X d"
    and present: "\<exists>d\<in>set D2. with_id X d"
  shows "\<exists>x1 x2.
     filter (with_id X) (fst (reconcile now1 L D1)) = [x1] \<and>
     items x1 ''status'' = Some (PStr ''RESOLVED'') \<and>
     items x1 ''resolvedAtIso'' = Some (PStr now1) \<and>
     filter (with_id X) (fst (reconcile now2 (fst (reconcile now1 L D1)) D2)) = [x2] \<and>
     items x2 ''status'' = Some (PStr ''OPEN'') \<and>
     items x2 ''resolvedAtIso'' = Some PNone \<and>
     diff_reopened (snd (reconcile now1 L D1)) =
       diff_reopened (snd (reconcile now1 (filter (\<lambda>v. \<not> with_id X v) L) D1)) \<and>
     diff_reopened (snd (reconcile now2 (fst (reconcile now1 L D1)) D2)) =
       diff_reopened (snd (reconcile now2
         (filter (\<lambda>v. \<not> with_id X v) (fst (reconcile now1 L D1))) D2)) + 1"
proof -
  let ?L1 = "fst (reconcile now1 L D1)"
  let ?x1 = "old_after now1 (by_id D1) x"
  let ?x2 = "old_after now2 (by_id D2) ?x1"
  have "x \<in> set (filter (with_id X) L)" using one by simp
  then have vx: "vid x = Some X" by (simp add: with_id_def)
  then have hx: "has_id x" by (simp add: has_id_def)
  have nr: "\<not> is_resolved x" using assms(2) by (rule open_not_resolved)
  have a1: "map_of (by_id D1) X = None"
    using by_id_key [of D1 X] absent by (auto simp: with_id_def)
  obtain d where d: "map_of (by_id D2) X = Some d"
    using by_id_key [of D2 X] present by (auto simp: with_id_def)
  have f1: "filter (with_id X) ?L1 = [?x1]"
    using one by (rule filter_with_id_ledger)
  have v1: "vid ?x1 = Some X" using hx vx by (simp add: old_after_vid)
  have r1: "is_resolved ?x1" using vx a1 by (rule old_after_undetected)
  have f2: "filter (with_id X) (fst (reconcile now2 ?L1 D2)) = [?x2]"
    using f1 by (rule filter_with_id_ledger)
  have c1: "diff_reopened (snd (reconcile now1 L D1)) =
      diff_reopened (snd (reconcile now1 (filter (\<lambda>v. \<not> with_id X v) L) D1))"
    using reopened_split [OF one, of now1 D1] old_reopened_undetected [OF vx a1, of now1] by simp
  have c2: "diff_reopened (snd (reconcile now2 ?L1 D2)) =
      diff_reopened (snd (reconcile now2 (filter (\<lambda>v. \<not> with_id X v) ?L1) D2)) + 1"
    using reopened_split [OF f1, of now2 D2] old_reopened_detected [OF v1 d r1, of now2] by simp
  show ?thesis
    using f1 f2 c1 c2 old_after_resolve [OF vx a1 nr, of now1] old_after_reopen [OF v1 d r1, of now2]
    by blast
qed

theorem resolve_reopen_symmetry_witness:
  "filter (with_id ''b-003'') [v_open, v_resolved] = [v_open] \<and> is_open v_open \<and>
   \<not> with_id ''b-003'' d_retention \<and> with_id ''b-003'' d_token \<and>
   (\<exists>x1 x2.
     filter (with_id ''b-003'') (fst (reconcile t1 [v_open, v_resolved] [d_retention])) = [x1] \<and>
     items x1 ''status'' = Some (PStr ''RESOLVED'') \<and>
     items x1 ''resolvedAtIso'' = Some (PStr t1) \<and>
     filter (with_id ''b-003'')
       (fst (reconcile t2 (fst (reconcile t1 [v_open, v_resolved] [d_retention])) [d_token]))
       = [x2] \<and>
     items x2 ''status'' = Some (PStr ''OPEN'') \<and>
     items x2 ''resolvedAtIso'' = Some PNone \<and>
     diff_reopened (snd (reconcile t1 [v_open, v_resolved] [d_retention])) =
       diff_reopened (snd (reconcile t1
         (filter (\<lambda>v. \<not> with_id ''b-003'' v) [v_open, v_resolved]) [d_retention])) \<and>
     diff_reopened (snd (reconcile t2 (fst (reconcile t1 [v_open, v_resolved] [d_retention]))
         [d_token])) =
       diff_reopened (snd (reconcile t2
         (filter (\<lambda>v. \<not> with_id ''b-003'' v)
           (fst (reconcile t1 [v_open, v_resolved] [d_retention]))) [d_token])) + 1)"
proof -
  have 1: "filter (with_id ''b-003'') [v_open, v_resolved] = [v_open]"
    by (simp add: with_id_def v_open_def v_resolved_def)
  have 2: "is_open v_open"
    by (simp add: is_open_def v_open_def getd_def)
  have 3: "\<forall>d\<in>set [d_retention]. \<not> with_id ''b-003'' d"
    by (simp add: with_id_def d_retention_def)
  have 4: "\<exists>d\<in>set [d_token]. with_id ''b-003'' d"
    by (simp add: with_id_def d_token_def)
  have 5: "\<not> with_id ''b-003'' d_retention" "with_id ''b-003'' d_token"
    using 3 4 by simp_all
  show ?thesis
    using 1 2 5 resolve_reopen_symmetry [OF 1 2 3 4, of t1 t2] by blast
qed

section \<open>Properties of the detectors\<close>

text \<open>
  The e-mail pattern compiles. The telephone pattern does not: its class holds the range
  from backslash to \<^verbatim>\<open>(\<close>, whose ends are in the wrong order, so \<^verbatim>\<open>re.search\<close> raises
  \<^verbatim>\<open>re.error\<close> at line 252 whatever the document is.
\<close>

lemma email_re_ok: "regex_ok email_re"
  by code_simp

lemma phone_re_bad: "\<not> regex_ok phone_re"
  by code_simp

lemma heuristic_violations_raises:
  "heuristic_violations doc_text ps existing_open = Inl RegexError"
  by (simp add: heuristic_violations_def re_search_def email_re_ok phone_re_bad)

text \<open>
  The retention pattern of line 256 asks for a backslash after \<^verbatim>\<open>cannot\<close> and does not
  match where \<^verbatim>\<open>RETENTION_REGEX\<close> of line 22 does; the token pattern of line 254 matches
  the sample token.
\<close>

lemma retention_re_misses: "re_search retention_re ''cannot delete'' True = Inr None"
  by code_simp

lemma RETENTION_REGEX_finds:
  "re_search RETENTION_REGEX ''cannot delete'' True = Inr (Some ''cannot delete'')"
  by code_simp

lemma token_re_finds:
  "re_search token_re ''sk_live_abcdef1234567890'' False = Inr (Some ''sk_live_abcdef1234567890'')"
  by code_simp

text \<open>
  C2. On the document \<^verbatim>\<open>cannot delete\<close> the heuristic detector raises \<^verbatim>\<open>re.error\<close>
  and emits no candidate; its retention pattern alone finds no match in this document
  either.
\<close>

theorem heuristic_cannot_delete:
  "heuristic_violations ''cannot delete'' [] [] = Inl RegexError \<and>
   re_search retention_re ''cannot delete'' True = Inr None"
  using heuristic_violations_raises [of "''cannot delete''" "[]" "[]"] retention_re_misses
  by simp

theorem heuristic_cannot_delete_witness:
  "heuristic_violations ''cannot delete'' [] [] \<noteq> Inr []"
  using heuristic_cannot_delete by simp

text \<open>
  C8. On the document \<^verbatim>\<open>sk_live_abcdef1234567890\<close>, with a policy
  \<^verbatim>\<open>secrets-handling\<close>, the heuristic detector raises \<^verbatim>\<open>re.error\<close> and emits no
  candidate.
\<close>

theorem heuristic_sk_live:
  "heuristic_violations ''sk_live_abcdef1234567890'' [secrets_policy] [] = Inl RegexError"
  by (rule heuristic_violations_raises)

theorem heuristic_sk_live_witness:
  "heuristic_violations ''sk_live_abcdef1234567890'' [secrets_policy] [] \<noteq> Inr []"
  by (simp add: heuristic_sk_live)

text \<open>
  What the pipeline does: without a key it ends as the heuristic detector ends; with a
  key it returns what the language model returns, and when that call raises, the
  exception is caught (line 240) and the pipeline falls back on the heuristic detector
  (line 242), whose exception then leaves \<^verbatim>\<open>_analyze\<close>.
\<close>

lemma analyze_outcome:
  "analyze api_key openai_violations doc_text ps existing_open =
     (if api_key = None \<or> api_key = Some [] then Inl RegexError
      else (case openai_violations doc_text ps existing_open of
              Inr llm \<Rightarrow> Inr llm
            | Inl e \<Rightarrow> Inl RegexError))"
  by (simp add: analyze_def heuristic_violations_raises split: sum.splits)

text \<open>
  C6. With a key configured and a language model whose call raises, the pipeline on the
  document \<^verbatim>\<open>cannot delete\<close> does not return a list: the \<^verbatim>\<open>re.error\<close> of the
  heuristic detector reaches the caller.
\<close>

theorem analyze_raises_on_fallback:
  "analyze (Some ''sk-test'') failing_detector ''cannot delete'' [] [] = Inl RegexError"
  by (simp add: analyze_outcome failing_detector_def)

theorem analyze_raises_on_fallback_witness:
  "analyze (Some ''sk-test'') failing_detector ''cannot delete'' [] [] \<noteq> Inr []"
  by (simp add: analyze_raises_on_fallback)

section \<open>Properties of the scan cycle\<close>

lemma load_violations: "violations (fst (snd (load_policies_from_disk e force st))) = violations st"
  by (simp add: load_policies_from_disk_def Let_def split: prod.splits sum.splits option.splits)

text \<open>A scan cycle keeps the ledger free of entries without an identity.\<close>

lemma scan_once_keeps_ids:
  assumes "\<forall>v\<in>set (violations st). has_id v"
  shows "\<forall>v\<in>set (violations (fst (scan_once e force st))). has_id v"
proof -
  obtain r st1 k where l: "load_policies_from_disk e False st = (r, st1, k)"
    by (cases "load_policies_from_disk e False st") auto
  have v1: "violations st1 = violations st"
    using load_violations [of e False st] l by simp
  show ?thesis
    using l v1 assms
    by (auto simp: scan_once_def Let_def dest: reconcile_pair_has_ids
        split: option.splits prod.splits sum.splits)
qed

text \<open>
  C10. When the monitored document does not exist, \<^verbatim>\<open>scan_once\<close> records the error
  and sets \<^verbatim>\<open>last_scan_iso\<close> to the clock reading taken at that moment; the ledger
  stays as it was.
\<close>

theorem scan_once_missing_document:
  assumes "doc_file e = None"
  shows "snd (scan_once e force st) = MissingSource \<and>
     last_scan_error (fst (scan_once e force st)) = Some (''Missing source file: '' @ doc_path e) \<and>
     last_scan_iso (fst (scan_once e force st)) = Some (clock e (next_reading e st)) \<and>
     violations (fst (scan_once e force st)) = violations st"
proof -
  obtain r st1 k where l: "load_policies_from_disk e False st = (r, st1, k)"
    by (cases "load_policies_from_disk e False st") auto
  have "violations st1 = violations st"
    using load_violations [of e False st] l by simp
  then show ?thesis
    using assms l by (simp add: scan_once_def next_reading_def)
qed

theorem scan_once_missing_document_witness:
  "doc_file e_missing = None \<and>
   snd (scan_once e_missing False st_init) = MissingSource \<and>
   last_scan_error (fst (scan_once e_missing False st_init)) =
     Some (''Missing source file: '' @ doc_path e_missing) \<and>
   last_scan_iso (fst (scan_once e_missing False st_init)) =
     Some (clock e_missing (next_reading e_missing st_init)) \<and>
   violations (fst (scan_once e_missing False st_init)) = violations st_init"
proof -
  have h: "doc_file e_missing = None"
    by (simp add: e_missing_def)
  show ?thesis
    using h scan_once_missing_document [OF h, of False st_init] by simp
qed

text \<open>A cycle that runs to its commit sets \<^verbatim>\<open>last_scan_iso\<close> in the same way.\<close>

lemma scan_once_scanned_timestamp:
  assumes "snd (scan_once e force st) = Scanned d"
  shows "last_scan_iso (fst (scan_once e force st)) = Some (clock e (Suc (next_reading e st)))"
proof -
  obtain r st1 k where l: "load_policies_from_disk e False st = (r, st1, k)"
    by (cases "load_policies_from_disk e False st") auto
  show ?thesis
    using assms l
    by (auto simp: scan_once_def next_reading_def Let_def
        split: option.splits prod.splits if_splits sum.splits)
qed

subsection \<open>Due-gating\<close>

lemma read_policies_fails:
  "isl (fst (read_policies clk k fs)) = (\<exists>f\<in>set fs. file_text f = None)"
proof (induction fs arbitrary: k)
  case Nil
  then show ?case by simp
next
  case (Cons f fs)
  show ?case
  proof (cases "file_text f")
    case None
    then show ?thesis by simp
  next
    case (Some t)
    obtain r k' where rp: "read_policies clk (Suc k) fs = (r, k')"
      by (cases "read_policies clk (Suc k) fs")
    have "isl r = (\<exists>f\<in>set fs. file_text f = None)"
      using Cons.IH [of "Suc k"] rp by simp
    then show ?thesis using Some rp by (cases r) auto
  qed
qed

lemma max_mtime_dir: "policies_dir e2 = policies_dir e1 \<Longrightarrow> policies_max_mtime e2 = policies_max_mtime e1"
  by (simp add: policies_max_mtime_def)

lemma load_cases:
  assumes "policies_max_mtime e = Some pm"
  obtains
    (fresh) m k where "policies_mtime st = Some m" "pm \<le> m"
      "load_policies_from_disk e False st = (Inr False, st, k)"
  | (reloaded) ps k where
      "load_policies_from_disk e False st = (Inr True, st\<lparr>policies := ps, policies_mtime := Some pm\<rparr>, k)"
  | (failed) err k fs where "policies_dir e = Some fs" "\<exists>f\<in>set fs. file_text f = None"
      "\<not> (\<exists>m. policies_mtime st = Some m \<and> pm \<le> m)"
      "load_policies_from_disk e False st = (Inl err, st, k)"
proof (cases "\<exists>m. policies_mtime st = Some m \<and> pm \<le> m")
  case True
  then obtain m where "policies_mtime st = Some m" "pm \<le> m" by blast
  then show ?thesis
    using assms fresh [of m 0] by (simp add: load_policies_from_disk_def)
next
  case False
  then have stale: "\<not> (case (policies_mtime st, Some pm) of (Some m, Some l) \<Rightarrow> l \<le> m | _ \<Rightarrow> False)"
    by (auto split: option.splits)
  obtain fs where fs: "policies_dir e = Some fs"
    using assms by (cases "policies_dir e") (auto simp: policies_max_mtime_def)
  obtain r k where rp: "read_policies (clock e) 0 fs = (r, k)"
    by (cases "read_policies (clock e) 0 fs")
  show ?thesis
  proof (cases r)
    case (Inl err)
    then have "\<exists>f\<in>set fs. file_text f = None"
      using read_policies_fails [of "clock e" 0 fs] rp by simp
    moreover have "load_policies_from_disk e False st = (Inl err, st, k)"
      using assms stale fs rp Inl by (simp add: load_policies_from_disk_def)
    ultimately show ?thesis using failed fs False by blast
  next
    case (Inr ps)
    then have "load_policies_from_disk e False st =
        (Inr True, st\<lparr>policies := ps, policies_mtime := Some pm\<rparr>, k)"
      using assms stale fs rp by (simp add: load_policies_from_disk_def)
    then show ?thesis by (rule reloaded)
  qed
qed

lemma rested_not_due: "rested e st \<Longrightarrow> scan_once e False st = (st, NotDue)"
  by (auto simp: rested_def scan_once_def)

lemma load_frame:
  assumes "policies_mtime st' = policies_mtime st" "policies_dir e2 = policies_dir e1"
    and "load_policies_from_disk e1 False st = (Inr False, st, k) \<or>
         (\<exists>err. load_policies_from_disk e1 False st = (Inl err, st, k))"
  shows "\<exists>k'. load_policies_from_disk e2 False st' = (Inr False, st', k') \<or>
         (\<exists>err. load_policies_from_disk e2 False st' = (Inl err, st', k'))"
proof -
  have mm: "policies_max_mtime e2 = policies_max_mtime e1"
    using assms(2) by (rule max_mtime_dir)
  let ?fs = "case policies_dir e1 of None \<Rightarrow> [] | Some fs \<Rightarrow> fs"
  show ?thesis
  proof (cases "case (policies_mtime st, policies_max_mtime e1) of
      (Some m, Some l) \<Rightarrow> l \<le> m | _ \<Rightarrow> False")
    case True
    then show ?thesis using assms(1) mm by (simp add: load_policies_from_disk_def)
  next
    case False
    then have "isl (fst (read_policies (clock e1) 0 ?fs))"
      using assms(3)
      by (auto simp: load_policies_from_disk_def Let_def split: prod.splits sum.splits)
    then have "isl (fst (read_policies (clock e2) 0 ?fs))"
      by (simp add: read_policies_fails)
    then show ?thesis
      using False assms(1,2) mm
      by (auto simp: load_policies_from_disk_def Let_def isl_def split: prod.splits sum.splits)
  qed
qed

lemma load_current:
  "policies_max_mtime e = Some pm \<Longrightarrow> policies_mtime st = Some m \<Longrightarrow> pm \<le> m \<Longrightarrow>
   load_policies_from_disk e False st = (Inr False, st, 0)"
  by (simp add: load_policies_from_disk_def)

lemma scan_once_completed:
  assumes "scan_once e force st = (st', out)" "\<forall>err. out \<noteq> Raised err"
    and "doc_file e = Some (mtime, text)"
    and "load_policies_from_disk e False st = (r, st1, k)"
  shows "policies_mtime st' = policies_mtime st1 \<and>
     (\<exists>m. doc_mtime st' = Some m \<and> mtime \<le> m)"
proof (cases "\<not> force \<and> r \<noteq> Inr True \<and> (\<exists>m. doc_mtime st1 = Some m \<and> mtime \<le> m)")
  case True
  then have "scan_once e force st = (st1, NotDue)"
    using assms(3,4)
    by (auto simp: scan_once_def Let_def split: sum.splits)
  then show ?thesis using assms(1) True by auto
next
  case False
  then have due: "\<not> (\<not> force \<and> \<not> (case r of Inr b \<Rightarrow> b | Inl err \<Rightarrow> False) \<and>
      \<not> (case doc_mtime st1 of None \<Rightarrow> True | Some m \<Rightarrow> mtime > m))"
    by (auto split: sum.splits option.splits)
  let ?st2 = "st1\<lparr>doc_mtime := Some mtime\<rparr>"
  let ?a = "analyze (OPENAI_API_KEY e) (openai e) (py_strip text) (policies ?st2)
      (filter is_open (violations ?st2))"
  show ?thesis
  proof (cases ?a)
    case (Inl err)
    then have "scan_once e force st = (?st2, Raised err)"
      using assms(3,4) due by (simp add: scan_once_def Let_def)
    then show ?thesis using assms(1,2) by auto
  next
    case (Inr det)
    obtain led d where rc: "reconcile (clock e k) (violations ?st2) det = (led, d)"
      by (cases "reconcile (clock e k) (violations ?st2) det")
    have "scan_once e force st =
        (?st2\<lparr>violations := led, last_scan_iso := Some (clock e (Suc k)),
              last_scan_error := None\<rparr>, Scanned d)"
      using assms(3,4) due Inr rc by (simp add: scan_once_def Let_def)
    then show ?thesis using assms(1) by auto
  qed
qed

text \<open>
  Where a policy file with a modification time exists, due-gating works: after a call
  of \<^verbatim>\<open>scan_once\<close> that returned, a second unforced call is not due and leaves the
  scan state as it is, provided the document exists with the same modification time and
  the policy directory is unchanged.
\<close>

lemma scan_once_not_due_again:
  assumes first: "scan_once e1 force st0 = (st1, out1)"
    and completed: "\<forall>err. out1 \<noteq> Raised err"
    and doc1: "doc_file e1 = Some (mtime, text1)"
    and doc2: "doc_file e2 = Some (mtime, text2)"
    and dir: "policies_dir e2 = policies_dir e1"
    and signal: "policies_max_mtime e1 = Some pm"
  shows "scan_once e2 False st1 = (st1, NotDue)"
proof -
  have mm: "policies_max_mtime e2 = Some pm"
    using max_mtime_dir [OF dir] signal by simp
  have "\<exists>k. load_policies_from_disk e2 False st1 = (Inr False, st1, k) \<or>
      (\<exists>err. load_policies_from_disk e2 False st1 = (Inl err, st1, k))"
    using signal
  proof (cases rule: load_cases [where st = st0])
    case (fresh m k)
    have "policies_mtime st1 = policies_mtime st0"
      using scan_once_completed [OF first completed doc1 fresh(3)] by simp
    then show ?thesis
      using load_frame [of st1 st0 e2 e1 k] dir fresh(3) by blast
  next
    case (reloaded ps k)
    have "policies_mtime st1 = Some pm"
      using scan_once_completed [OF first completed doc1 reloaded] by simp
    then show ?thesis
      using load_current [OF mm, of st1 pm] by blast
  next
    case (failed err k fs)
    have "policies_mtime st1 = policies_mtime st0"
      using scan_once_completed [OF first completed doc1 failed(4)] by simp
    then show ?thesis
      using load_frame [of st1 st0 e2 e1 k] dir failed(4) by blast
  qed
  moreover have "\<exists>m. doc_mtime st1 = Some m \<and> mtime \<le> m"
  proof -
    obtain r s1 k where "load_policies_from_disk e1 False st0 = (r, s1, k)"
      by (cases "load_policies_from_disk e1 False st0") auto
    then show ?thesis
      using scan_once_completed [OF first completed doc1] by blast
  qed
  ultimately have "rested e2 st1"
    using doc2 unfolding rested_def by blast
  then show ?thesis by (rule rested_not_due)
qed

lemma first_scan_outcome: "\<forall>err. snd (scan_once e_first True st_init) \<noteq> Raised err"
  by (simp add: scan_once_def e_first_def st_init_def load_policies_from_disk_def
      policies_max_mtime_def gdpr_file_def analyze_def silent_detector_def
      Let_def split: prod.splits)

lemma scan_once_not_due_again_example:
  "scan_once e_first True st_init =
     (fst (scan_once e_first True st_init), snd (scan_once e_first True st_init)) \<and>
   (\<forall>err. snd (scan_once e_first True st_init) \<noteq> Raised err) \<and>
   doc_file e_first = Some (100, ''All good.'') \<and>
   doc_file e_second = Some (100, ''All good.'') \<and>
   policies_dir e_second = policies_dir e_first \<and>
   policies_max_mtime e_first = Some 50 \<and>
   scan_once e_second False (fst (scan_once e_first True st_init)) =
     (fst (scan_once e_first True st_init), NotDue)"
proof -
  have 1: "scan_once e_first True st_init =
      (fst (scan_once e_first True st_init), snd (scan_once e_first True st_init))"
    by simp
  have 2: "\<forall>err. snd (scan_once e_first True st_init) \<noteq> Raised err"
    by (rule first_scan_outcome)
  have 3: "doc_file e_first = Some (100, ''All good.'')"
    by (simp add: e_first_def)
  have 4: "doc_file e_second = Some (100, ''All good.'')"
    by (simp add: e_second_def e_first_def)
  have 5: "policies_dir e_second = policies_dir e_first"
    by (simp add: e_second_def)
  have 6: "policies_max_mtime e_first = Some 50"
    by (simp add: policies_max_mtime_def e_first_def gdpr_file_def)
  show ?thesis
    using 1 2 3 4 5 6 scan_once_not_due_again [OF 1 2 3 4 5 6] by simp
qed

text \<open>
  With no policy file the latest policy signal is \<^verbatim>\<open>None\<close>, the guard of line 89 is
  false, and the reload returns \<^verbatim>\<open>True\<close> on every call; an unforced cycle is then
  always due.
\<close>

lemma reload_without_policy_files:
  assumes "policies_dir e = None \<or> policies_dir e = Some []"
  shows "load_policies_from_disk e False st =
     (Inr True, st\<lparr>policies := [], policies_mtime := None\<rparr>, 0)"
  using assms by (auto simp: load_policies_from_disk_def policies_max_mtime_def split: option.splits)

lemma scan_once_without_policy_files:
  assumes "policies_dir e = None \<or> policies_dir e = Some []" "doc_file e = Some (mtime, text)"
  shows "snd (scan_once e False st) \<noteq> NotDue"
  using assms(2) reload_without_policy_files [OF assms(1), of st]
  by (simp add: scan_once_def Let_def split: sum.splits prod.splits)

text \<open>
  C5. With a policy directory that holds no policy file, a second unforced call of
  \<^verbatim>\<open>scan_once\<close> after a completed scan, with the document and every signal unchanged,
  runs the detection again and moves \<^verbatim>\<open>last_scan_iso\<close>.
\<close>

theorem scan_once_rescans_without_policy_files:
  "snd (scan_once e_nopol True st_init) =
     Scanned \<lparr>diff_changed = False, diff_new = 0, diff_reopened = 0, diff_resolved = 0,
              diff_open_count = 0, diff_resolved_count = 0\<rparr> \<and>
   doc_file e_nopol_later = doc_file e_nopol \<and>
   policies_max_mtime e_nopol = None \<and> policies_max_mtime e_nopol_later = None \<and>
   snd (scan_once e_nopol_later False (fst (scan_once e_nopol True st_init))) =
     Scanned \<lparr>diff_changed = False, diff_new = 0, diff_reopened = 0, diff_resolved = 0,
              diff_open_count = 0, diff_resolved_count = 0\<rparr> \<and>
   last_scan_iso (fst (scan_once e_nopol True st_init)) = Some t1 \<and>
   last_scan_iso (fst (scan_once e_nopol_later False (fst (scan_once e_nopol True st_init))))
     = Some t2"
  by (simp add: scan_once_def e_nopol_later_def e_nopol_def e_first_def st_init_def
      load_policies_from_disk_def policies_max_mtime_def analyze_def
      silent_detector_def Let_def reconcile_def by_id_def racc0_def split: prod.splits)

theorem scan_once_rescans_without_policy_files_witness:
  "snd (scan_once e_nopol_later False (fst (scan_once e_nopol True st_init))) \<noteq> NotDue"
  by (simp add: scan_once_rescans_without_policy_files)

end
